theory Spec2Isabelle
  imports Main "HOL-Library.Word"
begin

section \<open>Machine types and text formatting\<close>

type_synonym u8 = "8 word"
type_synonym u16 = "16 word"
type_synonym i32 = "32 word"

text \<open>
  The conversion \<open>%d\<close> of \<open>printf\<close>: the decimal digits of an \<open>int\<close>, most significant
  first, with a minus sign for a negative value.
\<close>

definition digit_char :: "nat \<Rightarrow> char" where
  "digit_char d = ''0123456789'' ! d"

function dec :: "nat \<Rightarrow> string" where
  "dec n = (if n < 10 then [digit_char n] else dec (n div 10) @ [digit_char (n mod 10)])"
  by pat_completeness auto
termination
  by (relation "measure id") auto

declare dec.simps [simp del]

definition fmt_d :: "int \<Rightarrow> string" where
  "fmt_d v = (if v < 0 then CHR ''-'' # dec (nat (- v)) else dec (nat v))"

text \<open>
  The two format strings of \<open>thread_func\<close>, applied to \<open>thread_num\<close>. The argument is a
  \<open>uint16_t\<close>, which the call promotes to \<open>int\<close> without changing its value.
\<close>

definition running_line :: "u16 \<Rightarrow> string" where
  "running_line thread_num = ''Thread: '' @ fmt_d (uint thread_num) @ '' running\<newline>''"

definition finished_line :: "u16 \<Rightarrow> string" where
  "finished_line thread_num = ''Thread: '' @ fmt_d (uint thread_num) @ '' finished\<newline>''"

text \<open>The three texts that \<open>main\<close> prints on standard output, and the one it passes to \<open>perror\<close>.\<close>

definition creating_line :: string where
  "creating_line = ''Creating threads\<newline>''"

definition waiting_line :: string where
  "waiting_line = ''main(): threads created, waiting for finish...\<newline>''"

definition all_finished_line :: string where
  "all_finished_line = ''All threads finished\<newline>''"

definition create_error_msg :: string where
  "create_error_msg = ''error creating thread\<newline>''"

section \<open>Library calls\<close>

text \<open>
  A function of the program is modelled by the sequence of library calls and shared-memory
  writes it performs, in program order, ending with its \<open>return\<close>. The value a function
  returns is an \<open>int32_t\<close> (for \<open>main\<close>) or the null pointer (for \<open>thread_func\<close>).
\<close>

datatype retval = RInt i32 | RNull

datatype call =
    Printf string          \<comment> \<open>one \<open>printf\<close> call, with the text it writes to standard output\<close>
  | Perror string          \<comment> \<open>\<open>perror(msg)\<close>\<close>
  | Sleep nat              \<comment> \<open>\<open>sleep(seconds)\<close>\<close>
  | Store u16 u16          \<comment> \<open>\<open>thread_id[k] = v\<close>\<close>
  | Create u16 int int     \<comment> \<open>\<open>pthread_create(&threads[k], NULL, thread_func, &thread_id[k])\<close>
                                with the value it returned and the \<open>errno\<close> it left\<close>
  | Join u16               \<comment> \<open>\<open>pthread_join(threads[k], NULL)\<close>\<close>
  | Return retval

section \<open>The worker: \<open>thread_func\<close>\<close>

text \<open>
  \<^verbatim>\<open>for (uint8_t i = 0; i < 5; i++) { printf("Thread: %d running\n", thread_num); sleep(1); }\<close>
\<close>

function thread_loop :: "u16 \<Rightarrow> u8 \<Rightarrow> call list" where
  "thread_loop thread_num i =
     (if i < 5 then Printf (running_line thread_num) # Sleep 1 # thread_loop thread_num (i + 1)
      else [])"
  by pat_completeness auto
termination
proof (relation "measure (\<lambda>(thread_num, i). 5 - unat i)")
  show "wf (measure (\<lambda>(thread_num :: u16, i :: u8). 5 - unat i))"
    by simp
next
  fix thread_num :: u16 and i :: u8
  assume "i < 5"
  then have "unat i < 5"
    by (simp add: word_less_nat_alt)
  moreover from this have "unat (i + 1) = unat i + 1"
    by (simp add: unat_word_ariths)
  ultimately show "((thread_num, i + 1), (thread_num, i)) \<in> measure (\<lambda>(thread_num, i). 5 - unat i)"
    by simp
qed

declare thread_loop.simps [simp del]

text \<open>
  The body of \<open>thread_func\<close> once \<open>thread_num\<close> has been read through \<open>arg\<close>: the loop, the
  completion line, \<open>return NULL\<close>.
\<close>

definition thread_func :: "u16 \<Rightarrow> call list" where
  "thread_func thread_num =
     thread_loop thread_num 0 @ [Printf (finished_line thread_num), Return RNull]"

section \<open>The operating system\<close>

text \<open>
  The program's only input is how the thread library answers. \<open>create_rc os j\<close> is the
  value the call of \<open>pthread_create\<close> for array index \<open>j\<close> returns (0 for success),
  \<open>create_errno os j\<close> the \<open>errno\<close> in effect after that call when it fails (the value
  \<open>perror\<close> then reads), and \<open>strerror os\<close> the text of an error number.
\<close>

record os =
  create_rc :: "nat \<Rightarrow> int"
  create_errno :: "nat \<Rightarrow> int"
  strerror :: "int \<Rightarrow> string"

section \<open>The launcher: \<open>main\<close>\<close>

text \<open>
  \<^verbatim>\<open>for (uint16_t join_num = 0; join_num < num_threads; join_num++) pthread_join(threads[join_num], NULL);\<close>
\<close>

function join_loop :: "u16 \<Rightarrow> u16 \<Rightarrow> call list" where
  "join_loop num_threads join_num =
     (if join_num < num_threads then Join join_num # join_loop num_threads (join_num + 1)
      else [])"
  by pat_completeness auto
termination
proof (relation "measure (\<lambda>(num_threads, join_num). unat num_threads - unat join_num)")
  show "wf (measure (\<lambda>(num_threads :: u16, join_num :: u16). unat num_threads - unat join_num))"
    by simp
next
  fix num_threads join_num :: u16
  assume "join_num < num_threads"
  then have lt: "unat join_num < unat num_threads"
    by (simp add: word_less_nat_alt)
  have "unat num_threads < 2 ^ 16"
    using unsigned_less [of num_threads] by simp
  with lt have "unat (join_num + 1) = unat join_num + 1"
    by (simp add: unat_word_ariths)
  with lt show "((num_threads, join_num + 1), (num_threads, join_num))
      \<in> measure (\<lambda>(num_threads, join_num). unat num_threads - unat join_num)"
    by simp
qed

declare join_loop.simps [simp del]

text \<open>
  The spawn loop, followed by what \<open>main\<close> does after it. A failing \<open>pthread_create\<close> leaves
  the loop through \<open>perror\<close> and \<open>return -1\<close>; when the loop test fails, \<open>main\<close> goes on to the
  second \<open>printf\<close>, the join loop, the third \<open>printf\<close> and \<open>return 0\<close>.
\<close>

function spawn_loop :: "os \<Rightarrow> u16 \<Rightarrow> u16 \<Rightarrow> call list" where
  "spawn_loop os num_threads thread_num =
     (if thread_num < num_threads then
        Store thread_num (thread_num + 1) #
        Create thread_num (create_rc os (unat thread_num)) (create_errno os (unat thread_num)) #
        (if create_rc os (unat thread_num) \<noteq> 0
         then [Perror create_error_msg, Return (RInt (- 1))]
         else spawn_loop os num_threads (thread_num + 1))
      else
        Printf waiting_line # join_loop num_threads 0
        @ [Printf all_finished_line, Return (RInt 0)])"
  by pat_completeness auto
termination
proof (relation "measure (\<lambda>(os, num_threads, thread_num). unat num_threads - unat thread_num)")
  show "wf (measure (\<lambda>(os :: os, num_threads :: u16, thread_num :: u16).
      unat num_threads - unat thread_num))"
    by simp
next
  fix os :: os and num_threads thread_num :: u16
  assume "thread_num < num_threads"
  then have lt: "unat thread_num < unat num_threads"
    by (simp add: word_less_nat_alt)
  have "unat num_threads < 2 ^ 16"
    using unsigned_less [of num_threads] by simp
  with lt have "unat (thread_num + 1) = unat thread_num + 1"
    by (simp add: unat_word_ariths)
  with lt show "((os, num_threads, thread_num + 1), (os, num_threads, thread_num))
      \<in> measure (\<lambda>(os, num_threads, thread_num). unat num_threads - unat thread_num)"
    by simp
qed

declare spawn_loop.simps [simp del]

text \<open>
  The body of \<open>main\<close> for a worker count \<open>num_threads\<close>, and \<open>main\<close> itself, where the count
  is the constant 3.
\<close>

definition launch :: "os \<Rightarrow> u16 \<Rightarrow> call list" where
  "launch os num_threads = Printf creating_line # spawn_loop os num_threads 0"

definition main :: "os \<Rightarrow> call list" where
  "main os = launch os 3"

section \<open>The process\<close>

text \<open>
  A thread that \<open>pthread_create\<close> has started is first \<open>Created\<close>, holding the pointer it
  was given (an index into \<open>thread_id\<close>); its first step reads \<open>thread_num\<close> through that
  pointer, after which it is \<open>Running\<close> with the calls it still has to make. It has
  finished when none is left, and is \<open>Joined\<close> once \<open>pthread_join\<close> has returned for it.
\<close>

datatype tstate = Created nat | Running "call list" | Joined

text \<open>
  The state of the process: what \<open>main\<close> still has to do, its two arrays (an element is
  \<open>None\<close> until it is written), its \<open>errno\<close>, the threads in the order of their creation (a
  \<open>pthread_t\<close> is a position in that list), the two output streams with one entry per call
  that wrote to them, and the exit status once \<open>main\<close> has returned.
\<close>

record sys =
  main_k :: "call list"
  threads :: "nat option list"
  thread_id :: "u16 option list"
  errno :: int
  pool :: "tstate list"
  stdout :: "string list"
  stderr :: "string list"
  exit_code :: "i32 option"

definition init :: "os \<Rightarrow> u16 \<Rightarrow> sys" where
  "init os num_threads =
     \<lparr>main_k = launch os num_threads,
      threads = replicate (unat num_threads) None,
      thread_id = replicate (unat num_threads) None,
      errno = 0, pool = [], stdout = [], stderr = [], exit_code = None\<rparr>"

text \<open>
  One call of \<open>main\<close>. \<open>pthread_join\<close> returns only when the thread has finished; until
  then \<open>main\<close> has no step. An access outside an array, or through a handle that was never
  written, has no step either.
\<close>

fun main_call :: "os \<Rightarrow> call \<Rightarrow> sys \<Rightarrow> sys option" where
  "main_call os (Printf l) s = Some (s\<lparr>stdout := stdout s @ [l]\<rparr>)"
| "main_call os (Perror m) s =
     Some (s\<lparr>stderr := stderr s @ [m @ '': '' @ strerror os (errno s) @ ''\<newline>'']\<rparr>)"
| "main_call os (Sleep d) s = Some s"
| "main_call os (Store k v) s =
     (if unat k < length (thread_id s)
      then Some (s\<lparr>thread_id := (thread_id s)[unat k := Some v]\<rparr>)
      else None)"
| "main_call os (Create k rc e) s =
     (if rc = 0 then
        (if unat k < length (threads s)
         then Some (s\<lparr>threads := (threads s)[unat k := Some (length (pool s))],
                      pool := pool s @ [Created (unat k)]\<rparr>)
         else None)
      else Some (s\<lparr>errno := e\<rparr>))"
| "main_call os (Join k) s =
     (if unat k < length (threads s) then
        (case threads s ! unat k of
           None \<Rightarrow> None
         | Some h \<Rightarrow>
             if h < length (pool s) \<and> pool s ! h = Running []
             then Some (s\<lparr>pool := (pool s)[h := Joined]\<rparr>)
             else None)
      else None)"
| "main_call os (Return r) s =
     (case r of RInt v \<Rightarrow> Some (s\<lparr>exit_code := Some v\<rparr>) | RNull \<Rightarrow> None)"

definition main_step :: "os \<Rightarrow> sys \<Rightarrow> sys option" where
  "main_step os s =
     (if exit_code s \<noteq> None then None
      else case main_k s of
             [] \<Rightarrow> None
           | c # cs \<Rightarrow> main_call os c (s\<lparr>main_k := cs\<rparr>))"

text \<open>One call of a worker. \<open>thread_func\<close> prints, sleeps and returns; it makes no other call.\<close>

fun thread_call :: "call \<Rightarrow> sys \<Rightarrow> sys option" where
  "thread_call (Printf l) s = Some (s\<lparr>stdout := stdout s @ [l]\<rparr>)"
| "thread_call (Sleep d) s = Some s"
| "thread_call (Return r) s = Some s"
| "thread_call (Perror m) s = None"
| "thread_call (Store k v) s = None"
| "thread_call (Create k rc e) s = None"
| "thread_call (Join k) s = None"

definition thread_step :: "nat \<Rightarrow> sys \<Rightarrow> sys option" where
  "thread_step t s =
     (if exit_code s \<noteq> None \<or> \<not> t < length (pool s) then None
      else case pool s ! t of
             Created p \<Rightarrow>
               (if p < length (thread_id s) then
                  (case thread_id s ! p of
                     None \<Rightarrow> None
                   | Some v \<Rightarrow> Some (s\<lparr>pool := (pool s)[t := Running (thread_func v)]\<rparr>))
                else None)
           | Running [] \<Rightarrow> None
           | Running (c # cs) \<Rightarrow> thread_call c (s\<lparr>pool := (pool s)[t := Running cs]\<rparr>)
           | Joined \<Rightarrow> None)"

text \<open>
  The scheduler chooses who moves next. A schedule is the list of its choices; \<open>run\<close>
  follows it and is \<open>None\<close> when a chosen agent has no step. Once \<open>main\<close> has returned the
  process has exited and nobody moves.
\<close>

datatype agent = Main | Worker nat

fun step :: "os \<Rightarrow> agent \<Rightarrow> sys \<Rightarrow> sys option" where
  "step os Main s = main_step os s"
| "step os (Worker t) s = thread_step t s"

fun run :: "os \<Rightarrow> agent list \<Rightarrow> sys \<Rightarrow> sys option" where
  "run os [] s = Some s"
| "run os (a # as) s = (case step os a s of None \<Rightarrow> None | Some s' \<Rightarrow> run os as s')"

text \<open>The texts printed by a sequence of calls, in order.\<close>

fun prints :: "call list \<Rightarrow> string list" where
  "prints [] = []"
| "prints (Printf l # cs) = l # prints cs"
| "prints (c # cs) = prints cs"

section \<open>Vocabulary of the properties\<close>

text \<open>
  The first index at which \<open>pthread_create\<close> fails, if any, among the \<open>num_threads\<close>
  calls the spawn loop would make.
\<close>

definition first_failure :: "os \<Rightarrow> u16 \<Rightarrow> nat option" where
  "first_failure os N = find (\<lambda>j. create_rc os j \<noteq> 0) [0..<unat N]"

text \<open>One iteration of the spawn loop whose \<open>pthread_create\<close> succeeds.\<close>

definition spawn_ok :: "os \<Rightarrow> nat \<Rightarrow> call list" where
  "spawn_ok os j = [Store (of_nat j) (of_nat j + 1), Create (of_nat j) 0 (create_errno os j)]"

text \<open>The kinds of call, to count them and to select them in a sequence.\<close>

fun is_create :: "call \<Rightarrow> bool" where
  "is_create (Create k rc e) = True"
| "is_create c = False"

fun is_store :: "call \<Rightarrow> bool" where
  "is_store (Store k v) = True"
| "is_store c = False"

fun is_join :: "call \<Rightarrow> bool" where
  "is_join (Join k) = True"
| "is_join c = False"

fun is_output :: "call \<Rightarrow> bool" where
  "is_output (Printf l) = True"
| "is_output (Perror m) = True"
| "is_output c = False"

text \<open>
  Whose line a line of standard output is: one of the three of \<open>main\<close>, or one of the two
  of the worker with a given identifier.
\<close>

definition is_main_line :: "string \<Rightarrow> bool" where
  "is_main_line l = (l = creating_line \<or> l = waiting_line \<or> l = all_finished_line)"

definition is_worker_line :: "u16 \<Rightarrow> string \<Rightarrow> bool" where
  "is_worker_line v l = (l = running_line v \<or> l = finished_line v)"

text \<open>The diagnostic \<open>perror\<close> writes when the call for index \<open>k\<close> has failed.\<close>

definition diag :: "os \<Rightarrow> nat \<Rightarrow> string" where
  "diag os k = create_error_msg @ '': '' @ strerror os (create_errno os k) @ ''\<newline>''"


text \<open>
  What the parent of the process reads as its exit status: the low eight bits of the value
  \<open>main\<close> returns.
\<close>

definition exit_status :: "i32 \<Rightarrow> nat" where
  "exit_status v = unat v mod 256"

section \<open>The invariant of the process\<close>

text \<open>
  The worker at position \<open>t\<close> of the pool has the identifier \<open>t + 1\<close>; \<open>worker_out\<close> and
  \<open>main_out\<close> select its lines and those of \<open>main\<close> from standard output.
\<close>

definition worker_ident :: "nat \<Rightarrow> u16" where
  "worker_ident t = of_nat (Suc t)"

definition worker_out :: "nat \<Rightarrow> string list \<Rightarrow> string list" where
  "worker_out t ls = filter (is_worker_line (worker_ident t)) ls"

definition main_out :: "string list \<Rightarrow> string list" where
  "main_out ls = filter is_main_line ls"

text \<open>
  What holds of a worker at any moment: before its first step it holds the pointer to its
  own array element, which is already written, and has printed nothing; afterwards the
  calls it has left are a suffix of \<open>thread_func\<close> for its identifier and it has printed
  what the calls before them print.
\<close>

definition worker_inv :: "sys \<Rightarrow> nat \<Rightarrow> bool" where
  "worker_inv s t =
     (case pool s ! t of
        Created p \<Rightarrow> p = t \<and> thread_id s ! t = Some (worker_ident t) \<and> worker_out t (stdout s) = []
      | Running rest \<Rightarrow>
          (\<exists>pre. thread_func (worker_ident t) = pre @ rest \<and> worker_out t (stdout s) = prints pre)
      | Joined \<Rightarrow> worker_out t (stdout s) = prints (thread_func (worker_ident t)))"

text \<open>
  What holds of the two arrays, the pool and standard output at any moment, wherever
  \<open>main\<close> stands.
\<close>

definition common :: "u16 \<Rightarrow> sys \<Rightarrow> bool" where
  "common N s \<longleftrightarrow>
     length (threads s) = unat N \<and> length (thread_id s) = unat N \<and>
     length (pool s) \<le> unat N \<and>
     (\<forall>t<length (pool s).
        threads s ! t = Some t \<and> thread_id s ! t = Some (worker_ident t) \<and> worker_inv s t) \<and>
     (\<forall>j. length (pool s) \<le> j \<and> j < unat N \<longrightarrow> threads s ! j = None) \<and>
     (\<forall>l\<in>set (stdout s). is_main_line l \<or> (\<exists>t<length (pool s). is_worker_line (worker_ident t) l))"

text \<open>
  Where \<open>main\<close> stands: before its first \<open>printf\<close>, at the test of the spawn loop, at
  \<open>pthread_create\<close>, on the error path (before \<open>perror\<close>, before \<open>return -1\<close>, exited), at
  the test of the join loop, before \<open>return 0\<close>, or exited with 0. \<open>at_phase\<close> states what
  holds at each of these points.
\<close>

datatype phase =
    PStart | PSpawn nat | PCreate nat | PPerror nat | PRetErr nat | PExitErr nat
  | PJoin nat | PRetOk | PExitOk

definition spawning :: "os \<Rightarrow> nat \<Rightarrow> sys \<Rightarrow> bool" where
  "spawning os k s \<longleftrightarrow>
     (\<forall>j<k. create_rc os j = 0) \<and> length (pool s) = k \<and>
     main_out (stdout s) = [creating_line] \<and> stdout s \<noteq> [] \<and> hd (stdout s) = creating_line \<and>
     (\<forall>u<length (pool s). pool s ! u \<noteq> Joined)"

definition joining :: "os \<Rightarrow> u16 \<Rightarrow> sys \<Rightarrow> bool" where
  "joining os N s \<longleftrightarrow>
     (\<forall>j<unat N. create_rc os j = 0) \<and> length (pool s) = unat N \<and>
     stdout s \<noteq> [] \<and> hd (stdout s) = creating_line \<and> stderr s = []"

fun at_phase :: "os \<Rightarrow> u16 \<Rightarrow> phase \<Rightarrow> sys \<Rightarrow> bool" where
  "at_phase os N PStart s \<longleftrightarrow>
     main_k s = launch os N \<and> pool s = [] \<and> stdout s = [] \<and> stderr s = [] \<and>
     exit_code s = None"
| "at_phase os N (PSpawn k) s \<longleftrightarrow>
     k \<le> unat N \<and> spawning os k s \<and> stderr s = [] \<and> exit_code s = None \<and>
     main_k s = spawn_loop os N (of_nat k)"
| "at_phase os N (PCreate k) s \<longleftrightarrow>
     k < unat N \<and> spawning os k s \<and> stderr s = [] \<and> exit_code s = None \<and>
     thread_id s ! k = Some (worker_ident k) \<and>
     main_k s = Create (of_nat k) (create_rc os k) (create_errno os k) #
       (if create_rc os k \<noteq> 0 then [Perror create_error_msg, Return (RInt (- 1))]
        else spawn_loop os N (of_nat (Suc k)))"
| "at_phase os N (PPerror k) s \<longleftrightarrow>
     k < unat N \<and> spawning os k s \<and> create_rc os k \<noteq> 0 \<and> stderr s = [] \<and>
     exit_code s = None \<and> errno s = create_errno os k \<and>
     main_k s = [Perror create_error_msg, Return (RInt (- 1))]"
| "at_phase os N (PRetErr k) s \<longleftrightarrow>
     k < unat N \<and> spawning os k s \<and> create_rc os k \<noteq> 0 \<and> stderr s = [diag os k] \<and>
     exit_code s = None \<and> main_k s = [Return (RInt (- 1))]"
| "at_phase os N (PExitErr k) s \<longleftrightarrow>
     k < unat N \<and> spawning os k s \<and> create_rc os k \<noteq> 0 \<and> stderr s = [diag os k] \<and>
     exit_code s = Some (- 1) \<and> main_k s = []"
| "at_phase os N (PJoin j) s \<longleftrightarrow>
     j \<le> unat N \<and> joining os N s \<and> exit_code s = None \<and>
     main_out (stdout s) = [creating_line, waiting_line] \<and>
     (\<forall>u<unat N. (pool s ! u = Joined) = (u < j)) \<and>
     main_k s = join_loop N (of_nat j) @ [Printf all_finished_line, Return (RInt 0)]"
| "at_phase os N PRetOk s \<longleftrightarrow>
     joining os N s \<and> exit_code s = None \<and>
     main_out (stdout s) = [creating_line, waiting_line, all_finished_line] \<and>
     last (stdout s) = all_finished_line \<and>
     (\<forall>u<unat N. pool s ! u = Joined) \<and> main_k s = [Return (RInt 0)]"
| "at_phase os N PExitOk s \<longleftrightarrow>
     joining os N s \<and> exit_code s = Some 0 \<and>
     main_out (stdout s) = [creating_line, waiting_line, all_finished_line] \<and>
     last (stdout s) = all_finished_line \<and>
     (\<forall>u<unat N. pool s ! u = Joined) \<and> main_k s = []"

definition proc_inv :: "os \<Rightarrow> u16 \<Rightarrow> sys \<Rightarrow> bool" where
  "proc_inv os N s \<longleftrightarrow> common N s \<and> (\<exists>ph. at_phase os N ph s)"

text \<open>
  A bound on the number of steps the process can still take: the calls \<open>main\<close> has left,
  thirteen steps for each thread it may still create or that has not started (the read
  of the identifier and the twelve calls of \<open>thread_func\<close>), and the calls each running
  worker has left.
\<close>

fun tfuel :: "tstate \<Rightarrow> nat" where
  "tfuel (Created p) = 13"
| "tfuel (Running cs) = length cs"
| "tfuel Joined = 0"

definition fuel :: "sys \<Rightarrow> nat" where
  "fuel s = length (main_k s) + 13 * length (filter is_create (main_k s))
            + sum_list (map tfuel (pool s))"

section \<open>Two operating systems and two schedules\<close>

text \<open>
  \<open>os_ok\<close> creates every thread. \<open>os_eagain\<close> refuses the second one with error 11. Under
  \<open>sched_ok\<close> the launcher creates the three workers, which then take turns until all
  have returned; under \<open>sched_eagain\<close> the first worker prints one line before the second
  creation fails. \<open>final_ok\<close> and \<open>final_eagain\<close> are the states these runs end in, and
  \<open>mid_ok\<close> is the state under \<open>os_ok\<close> after the first two steps of \<open>main\<close>.
\<close>

definition os_ok :: os where
  "os_ok = \<lparr>create_rc = (\<lambda>j. 0), create_errno = (\<lambda>j. 0), strerror = (\<lambda>e. ''Success'')\<rparr>"

definition os_eagain :: os where
  "os_eagain = \<lparr>create_rc = (\<lambda>j. if j = 1 then 11 else 0), create_errno = (\<lambda>j. 11),
     strerror = (\<lambda>e. ''Resource temporarily unavailable'')\<rparr>"

definition sched_ok :: "agent list" where
  "sched_ok = replicate 8 Main @ concat (replicate 13 [Worker 0, Worker 1, Worker 2]) @ replicate 5 Main"

definition sched_eagain :: "agent list" where
  "sched_eagain = [Main, Main, Main, Worker 0, Worker 0, Main, Main, Main, Main]"

definition final_ok :: sys where
  "final_ok =
    \<lparr>main_k = [], threads = [Some 0, Some 1, Some 2],
     thread_id = [Some 1, Some 2, Some 3], errno = 0,
     pool = [Joined, Joined, Joined],
     stdout =
       [''Creating threads\<newline>'',
        ''main(): threads created, waiting for finish...\<newline>'',
        ''Thread: 1 running\<newline>'', ''Thread: 2 running\<newline>'',
        ''Thread: 3 running\<newline>'', ''Thread: 1 running\<newline>'',
        ''Thread: 2 running\<newline>'', ''Thread: 3 running\<newline>'',
        ''Thread: 1 running\<newline>'', ''Thread: 2 running\<newline>'',
        ''Thread: 3 running\<newline>'', ''Thread: 1 running\<newline>'',
        ''Thread: 2 running\<newline>'', ''Thread: 3 running\<newline>'',
        ''Thread: 1 running\<newline>'', ''Thread: 2 running\<newline>'',
        ''Thread: 3 running\<newline>'', ''Thread: 1 finished\<newline>'',
        ''Thread: 2 finished\<newline>'', ''Thread: 3 finished\<newline>'',
        ''All threads finished\<newline>''],
     stderr = [], exit_code = Some 0\<rparr>"

definition final_eagain :: sys where
  "final_eagain =
    \<lparr>main_k = [], threads = [Some 0, None, None],
     thread_id = [Some 1, Some 2, None], errno = 11,
     pool =
       [Running
         [Sleep 1, Printf ''Thread: 1 running\<newline>'', Sleep 1,
          Printf ''Thread: 1 running\<newline>'', Sleep 1,
          Printf ''Thread: 1 running\<newline>'', Sleep 1,
          Printf ''Thread: 1 running\<newline>'', Sleep 1,
          Printf ''Thread: 1 finished\<newline>'', Return RNull]],
     stdout = [''Creating threads\<newline>'', ''Thread: 1 running\<newline>''],
     stderr =
       [''error creating thread\<newline>: Resource temporarily unavailable\<newline>''],
     exit_code = Some (- 1)\<rparr>"

text \<open>
  \<open>os_stale\<close> refuses the second thread as \<open>os_eagain\<close> does, returning 11 from
  \<open>pthread_create\<close>, but reports the error through that return value alone and leaves
  \<open>errno\<close> at 0. \<open>final_stale\<close> is the state \<open>sched_eagain\<close> ends in under it.
\<close>

definition os_stale :: os where
  "os_stale = \<lparr>create_rc = (\<lambda>j. if j = 1 then 11 else 0), create_errno = (\<lambda>j. 0),
     strerror = (\<lambda>e. if e = 0 then ''Success''
                    else if e = 11 then ''Resource temporarily unavailable''
                    else ''Unknown error'')\<rparr>"

definition final_stale :: sys where
  "final_stale =
    \<lparr>main_k = [], threads = [Some 0, None, None],
     thread_id = [Some 1, Some 2, None], errno = 0,
     pool =
       [Running
         [Sleep 1, Printf ''Thread: 1 running\<newline>'', Sleep 1,
          Printf ''Thread: 1 running\<newline>'', Sleep 1,
          Printf ''Thread: 1 running\<newline>'', Sleep 1,
          Printf ''Thread: 1 running\<newline>'', Sleep 1,
          Printf ''Thread: 1 finished\<newline>'', Return RNull]],
     stdout = [''Creating threads\<newline>'', ''Thread: 1 running\<newline>''],
     stderr = [''error creating thread\<newline>: Success\<newline>''],
     exit_code = Some (- 1)\<rparr>"

definition mid_ok :: sys where
  "mid_ok =
    \<lparr>main_k = [Create 0 0 0, Store 1 2, Create 1 0 0, Store 2 3, Create 2 0 0,
       Printf ''main(): threads created, waiting for finish...\<newline>'', Join 0, Join 1, Join 2,
       Printf ''All threads finished\<newline>'', Return (RInt 0)],
     threads = [None, None, None], thread_id = [Some 1, None, None], errno = 0,
     pool = [], stdout = [''Creating threads\<newline>''], stderr = [], exit_code = None\<rparr>"

section \<open>The worker alone\<close>

lemma concat_replicate_5: "concat (replicate 5 xs) = xs @ xs @ xs @ xs @ xs"
  by (simp add: eval_nat_numeral)

lemma thread_loop_unfold:
  "thread_loop n 0 = concat (replicate 5 [Printf (running_line n), Sleep 1])"
proof -
  have s5: "thread_loop n 5 = []"
    by (subst thread_loop.simps) simp
  have s4: "thread_loop n 4 = Printf (running_line n) # Sleep 1 # thread_loop n 5"
    by (subst thread_loop.simps) simp
  have s3: "thread_loop n 3 = Printf (running_line n) # Sleep 1 # thread_loop n 4"
    by (subst thread_loop.simps) simp
  have s2: "thread_loop n 2 = Printf (running_line n) # Sleep 1 # thread_loop n 3"
    by (subst thread_loop.simps) simp
  have s1: "thread_loop n 1 = Printf (running_line n) # Sleep 1 # thread_loop n 2"
    by (subst thread_loop.simps) simp
  have s0: "thread_loop n 0 = Printf (running_line n) # Sleep 1 # thread_loop n 1"
    by (subst thread_loop.simps) simp
  show ?thesis
    by (simp only: s0 s1 s2 s3 s4 s5 concat_replicate_5 append.simps)
qed

lemma thread_func_calls:
  "thread_func v =
     concat (replicate 5 [Printf (running_line v), Sleep 1])
     @ [Printf (finished_line v), Return RNull]"
  by (simp only: thread_func_def thread_loop_unfold)

section \<open>Auxiliary facts\<close>

subsection \<open>Loop counters do not wrap around\<close>

lemma unat_less_u16: "unat (N :: u16) < 65536"
  using unsigned_less [of N] by simp

lemma unat_of_nat_u16: "k \<le> unat (N :: u16) \<Longrightarrow> unat (of_nat k :: u16) = k"
  using unat_less_u16 [of N] by (simp add: unat_of_nat)

lemma of_nat_less_u16: "k < unat (N :: u16) \<Longrightarrow> (of_nat k :: u16) < N"
  using unat_of_nat_u16 [of k N] by (simp add: word_less_nat_alt)

subsection \<open>The calls of the launcher in closed form\<close>

lemma join_loop_step:
  assumes "k < unat N"
  shows "join_loop N (of_nat k) = Join (of_nat k) # join_loop N (of_nat (Suc k))"
  using of_nat_less_u16 [OF assms] join_loop.simps [of N "of_nat k"]
  by (simp add: add.commute)

lemma join_loop_done: "join_loop N N = []"
  using join_loop.simps [of N N] by simp

lemma join_loop_from:
  "k \<le> unat N \<Longrightarrow> join_loop N (of_nat k) = map (\<lambda>j. Join (of_nat j)) [k..<unat N]"
proof (induction "unat N - k" arbitrary: k)
  case 0
  then have "k = unat N" by simp
  then show ?case
    by (simp add: join_loop_done)
next
  case (Suc d)
  then have lt: "k < unat N" by simp
  have ih: "join_loop N (of_nat (Suc k)) = map (\<lambda>j. Join (of_nat j)) [Suc k..<unat N]"
    using Suc lt by (intro Suc.hyps(1)) simp_all
  with lt show ?case
    by (simp add: join_loop_step upt_conv_Cons del: of_nat_Suc)
qed

lemma spawn_loop_step:
  assumes "k < unat N"
  shows "spawn_loop os N (of_nat k) =
     Store (of_nat k) (of_nat k + 1) # Create (of_nat k) (create_rc os k) (create_errno os k) #
     (if create_rc os k \<noteq> 0 then [Perror create_error_msg, Return (RInt (- 1))]
      else spawn_loop os N (of_nat (Suc k)))"
proof -
  have u: "unat (of_nat k :: u16) = k"
    using assms by (intro unat_of_nat_u16 [of k N]) simp
  show ?thesis
    using of_nat_less_u16 [OF assms] spawn_loop.simps [of os N "of_nat k"]
    by (simp add: u add.commute)
qed

lemma spawn_loop_done:
  "spawn_loop os N N =
     Printf waiting_line # join_loop N 0 @ [Printf all_finished_line, Return (RInt 0)]"
  using spawn_loop.simps [of os N N] by simp

lemma spawn_loop_ok_from:
  "k \<le> unat N \<Longrightarrow> (\<forall>j. k \<le> j \<and> j < unat N \<longrightarrow> create_rc os j = 0) \<Longrightarrow>
   spawn_loop os N (of_nat k) =
     concat (map (spawn_ok os) [k..<unat N]) @
     Printf waiting_line # map (\<lambda>j. Join (of_nat j)) [0..<unat N] @
     [Printf all_finished_line, Return (RInt 0)]"
proof (induction "unat N - k" arbitrary: k)
  case 0
  then have "k = unat N" by simp
  then show ?case
    using join_loop_from [of 0 N] by (simp add: spawn_loop_done)
next
  case (Suc d)
  then have lt: "k < unat N" by simp
  have ih: "spawn_loop os N (of_nat (Suc k)) =
     concat (map (spawn_ok os) [Suc k..<unat N]) @
     Printf waiting_line # map (\<lambda>j. Join (of_nat j)) [0..<unat N] @
     [Printf all_finished_line, Return (RInt 0)]"
    using Suc lt by (intro Suc.hyps(1)) simp_all
  have "create_rc os k = 0"
    using Suc.prems lt by simp
  with ih lt show ?case
    by (simp add: spawn_loop_step upt_conv_Cons spawn_ok_def del: of_nat_Suc)
qed

lemma spawn_loop_fail_from:
  "k \<le> f \<Longrightarrow> f < unat N \<Longrightarrow> create_rc os f \<noteq> 0 \<Longrightarrow>
   (\<forall>j. k \<le> j \<and> j < f \<longrightarrow> create_rc os j = 0) \<Longrightarrow>
   spawn_loop os N (of_nat k) =
     concat (map (spawn_ok os) [k..<f]) @
     [Store (of_nat f) (of_nat f + 1), Create (of_nat f) (create_rc os f) (create_errno os f),
      Perror create_error_msg, Return (RInt (- 1))]"
proof (induction "f - k" arbitrary: k)
  case 0
  then have "k = f" by simp
  with 0 show ?case
    by (simp add: spawn_loop_step)
next
  case (Suc d)
  then have lt: "k < f" by simp
  have ih: "spawn_loop os N (of_nat (Suc k)) =
     concat (map (spawn_ok os) [Suc k..<f]) @
     [Store (of_nat f) (of_nat f + 1), Create (of_nat f) (create_rc os f) (create_errno os f),
      Perror create_error_msg, Return (RInt (- 1))]"
    using Suc lt by (intro Suc.hyps(1)) simp_all
  have "create_rc os k = 0"
    using Suc.prems lt by simp
  moreover have "k < unat N"
    using lt Suc.prems by simp
  ultimately show ?case
    using ih lt by (simp add: spawn_loop_step upt_conv_Cons spawn_ok_def del: of_nat_Suc)
qed

lemma first_failure_None: "first_failure os N = None \<longleftrightarrow> (\<forall>j<unat N. create_rc os j = 0)"
  by (auto simp: first_failure_def find_None_iff)

lemma first_failure_Some:
  "first_failure os N = Some k \<longleftrightarrow>
     k < unat N \<and> create_rc os k \<noteq> 0 \<and> (\<forall>j<k. create_rc os j = 0)"
  by (auto simp: first_failure_def find_Some_iff)

lemma launch_ok:
  assumes "first_failure os N = None"
  shows "launch os N =
     Printf creating_line # concat (map (spawn_ok os) [0..<unat N]) @
     Printf waiting_line # map (\<lambda>j. Join (of_nat j)) [0..<unat N] @
     [Printf all_finished_line, Return (RInt 0)]"
  using assms spawn_loop_ok_from [of 0 N os]
  by (simp add: launch_def first_failure_None)

lemma launch_fail:
  assumes "first_failure os N = Some k"
  shows "launch os N =
     Printf creating_line # concat (map (spawn_ok os) [0..<k]) @
     [Store (of_nat k) (of_nat k + 1), Create (of_nat k) (create_rc os k) (create_errno os k),
      Perror create_error_msg, Return (RInt (- 1))]"
  using assms spawn_loop_fail_from [of 0 k N os]
  by (simp add: launch_def first_failure_Some)


subsection \<open>Lines are told apart by their text\<close>

lemma digit_char_inj: "a < 10 \<Longrightarrow> b < 10 \<Longrightarrow> digit_char a = digit_char b \<Longrightarrow> a = b"
proof -
  assume a: "a < 10" and b: "b < 10" and e: "digit_char a = digit_char b"
  have d: "distinct ''0123456789''" by simp
  have "length ''0123456789'' = 10" by simp
  with a b e d show "a = b"
    unfolding digit_char_def by (metis nth_eq_iff_index_eq)
qed

lemma dec_length_1: "length (dec n) = Suc 0 \<longleftrightarrow> n < 10"
proof (cases "n < 10")
  case True
  then show ?thesis using dec.simps [of n] by simp
next
  case False
  have "dec (n div 10) \<noteq> []"
    using dec.simps [of "n div 10"] by (simp split: if_splits)
  with False show ?thesis using dec.simps [of n] by simp
qed

lemma dec_inj: "dec a = dec b \<Longrightarrow> a = b"
proof (induction a arbitrary: b rule: dec.induct)
  case (1 n)
  show ?case
  proof (cases "n < 10")
    case True
    then have "length (dec b) = Suc 0"
      using "1.prems" dec_length_1 [of n] by simp
    then have b: "b < 10" by (simp add: dec_length_1)
    with True "1.prems" show ?thesis
      using dec.simps [of n] dec.simps [of b] by (simp add: digit_char_inj)
  next
    case False
    then have "length (dec b) \<noteq> Suc 0"
      using "1.prems" dec_length_1 [of n] by simp
    then have b: "\<not> b < 10" by (simp add: dec_length_1)
    from False b "1.prems" have e: "dec (n div 10) = dec (b div 10)"
      and d: "digit_char (n mod 10) = digit_char (b mod 10)"
      using dec.simps [of n] dec.simps [of b] by simp_all
    from "1.IH" [OF False e] have "n div 10 = b div 10" .
    moreover from d have "n mod 10 = b mod 10"
      by (intro digit_char_inj) simp_all
    ultimately show ?thesis
      by (metis div_mult_mod_eq)
  qed
qed

lemma fmt_d_uint: "fmt_d (uint (v :: u16)) = dec (unat v)"
  by (simp add: fmt_d_def)

lemma running_line_inj: "running_line v = running_line w \<Longrightarrow> v = w"
proof -
  assume "running_line v = running_line w"
  then have "dec (unat v) = dec (unat w)"
    by (simp add: running_line_def fmt_d_uint)
  then have "unat v = unat w"
    by (rule dec_inj)
  then show "v = w"
    by (simp add: word_unat_eq_iff)
qed

lemma finished_line_inj: "finished_line v = finished_line w \<Longrightarrow> v = w"
proof -
  assume "finished_line v = finished_line w"
  then have "dec (unat v) = dec (unat w)"
    by (simp add: finished_line_def fmt_d_uint)
  then have "unat v = unat w"
    by (rule dec_inj)
  then show "v = w"
    by (simp add: word_unat_eq_iff)
qed

lemma running_not_finished: "running_line v \<noteq> finished_line w"
proof
  assume "running_line v = finished_line w"
  then have "rev (running_line v) ! 1 = rev (finished_line w) ! 1"
    by simp
  then show False
    by (simp add: running_line_def finished_line_def)
qed

lemma worker_line_not_main: "is_worker_line v l \<Longrightarrow> \<not> is_main_line l"
  by (auto simp: is_worker_line_def is_main_line_def running_line_def finished_line_def
      creating_line_def waiting_line_def all_finished_line_def)

lemma worker_line_unique: "is_worker_line v l \<Longrightarrow> is_worker_line w l \<Longrightarrow> v = w"
  using running_not_finished [of v w] running_not_finished [of w v]
  by (auto simp: is_worker_line_def dest: running_line_inj finished_line_inj)

lemma main_lines_distinct:
  "creating_line \<noteq> waiting_line" "creating_line \<noteq> all_finished_line"
  "waiting_line \<noteq> all_finished_line"
  by (simp_all add: creating_line_def waiting_line_def all_finished_line_def)

subsection \<open>Identifiers and steps of a worker\<close>

lemma unat_wid:
  assumes "t < unat (N :: u16)"
  shows "unat (worker_ident t) = Suc t"
proof -
  from assms have "Suc t \<le> unat N" by simp
  then have "unat (of_nat (Suc t) :: u16) = Suc t"
    by (rule unat_of_nat_u16)
  then show ?thesis
    by (simp only: worker_ident_def)
qed

lemma wid_inj:
  assumes "t < unat (N :: u16)" and "u < unat N" and "worker_ident t = worker_ident u"
  shows "t = u"
proof -
  have "Suc t = unat (worker_ident t)"
    using unat_wid [OF assms(1)] by simp
  also have "\<dots> = unat (worker_ident u)"
    by (simp only: assms(3))
  also have "\<dots> = Suc u"
    by (rule unat_wid [OF assms(2)])
  finally show ?thesis by simp
qed

lemma prints_append: "prints (xs @ ys) = prints xs @ prints ys"
  by (induction xs rule: prints.induct) simp_all

lemma thread_func_members:
  assumes "c \<in> set (thread_func v)"
  shows "(\<exists>l. c = Printf l \<and> is_worker_line v l) \<or> c = Sleep 1 \<or> c = Return RNull"
  using assms by (auto simp: thread_func_calls is_worker_line_def)

lemma thread_func_prints:
  "prints (thread_func v) = replicate 5 (running_line v) @ [finished_line v]"
  by (simp add: thread_func_calls concat_replicate_5 eval_nat_numeral)

lemma thread_call_cases:
  assumes "thread_call c s = Some s'"
  shows "(\<exists>l. c = Printf l \<and> s' = s\<lparr>stdout := stdout s @ [l]\<rparr>) \<or>
         ((\<forall>l. c \<noteq> Printf l) \<and> s' = s)"
  using assms by (cases c) auto

lemma thread_step_cases:
  assumes "thread_step t s = Some s'"
  shows "(\<exists>p v. pool s ! t = Created p \<and> p < length (thread_id s) \<and>
            thread_id s ! p = Some v \<and>
            s' = s\<lparr>pool := (pool s)[t := Running (thread_func v)]\<rparr>) \<or>
         (\<exists>l cs. pool s ! t = Running (Printf l # cs) \<and>
            s' = s\<lparr>pool := (pool s)[t := Running cs], stdout := stdout s @ [l]\<rparr>) \<or>
         (\<exists>c cs. pool s ! t = Running (c # cs) \<and> (\<forall>l. c \<noteq> Printf l) \<and>
            s' = s\<lparr>pool := (pool s)[t := Running cs]\<rparr>)"
proof (cases "pool s ! t")
  case (Created p)
  with assms show ?thesis
    by (auto simp: thread_step_def split: if_splits option.splits)
next
  case (Running cs0)
  show ?thesis
  proof (cases cs0)
    case Nil
    with Running assms show ?thesis
      by (simp add: thread_step_def split: if_splits)
  next
    case (Cons c cs)
    with Running assms
    have "thread_call c (s\<lparr>pool := (pool s)[t := Running cs]\<rparr>) = Some s'"
      by (simp add: thread_step_def split: if_splits)
    from thread_call_cases [OF this] Running Cons show ?thesis
      by auto
  qed
next
  case Joined
  with assms show ?thesis
    by (simp add: thread_step_def split: if_splits)
qed

lemma thread_step_enabled:
  "thread_step t s = Some s' \<Longrightarrow> t < length (pool s) \<and> exit_code s = None \<and> pool s ! t \<noteq> Joined"
  by (auto simp: thread_step_def split: if_splits tstate.splits)

subsection \<open>Steps of a worker keep the invariant\<close>

lemma winv_frame:
  "pool s' ! u = pool s ! u \<Longrightarrow> thread_id s' ! u = thread_id s ! u \<Longrightarrow>
   worker_out u (stdout s') = worker_out u (stdout s) \<Longrightarrow> worker_inv s' u = worker_inv s u"
  by (auto simp: worker_inv_def split: tstate.splits)

lemma winv_running:
  "pool s ! t = Running rest \<Longrightarrow> thread_func (worker_ident t) = pre @ rest \<Longrightarrow>
   worker_out t (stdout s) = prints pre \<Longrightarrow> worker_inv s t"
  by (auto simp: worker_inv_def)

lemma wproj_snoc:
  "worker_out u (ls @ [l]) = (if is_worker_line (worker_ident u) l then worker_out u ls @ [l] else worker_out u ls)"
  by (simp add: worker_out_def)

lemma wproj_snoc_other:
  assumes "is_worker_line (worker_ident t) l" and "t < unat (N :: u16)" and "u < unat N" and "u \<noteq> t"
  shows "worker_out u (ls @ [l]) = worker_out u ls"
proof -
  have "\<not> is_worker_line (worker_ident u) l"
    using worker_line_unique [OF assms(1), of "worker_ident u"] wid_inj [OF assms(2,3)] assms(4)
    by auto
  then show ?thesis
    by (simp add: wproj_snoc)
qed

lemma wproj_snoc_main: "is_main_line l \<Longrightarrow> worker_out u (ls @ [l]) = worker_out u ls"
  using worker_line_not_main [of "worker_ident u" l] by (auto simp: wproj_snoc)

lemma mproj_snoc_worker: "is_worker_line v l \<Longrightarrow> main_out (ls @ [l]) = main_out ls"
  using worker_line_not_main [of v l] by (simp add: main_out_def)

lemma mproj_snoc_main: "is_main_line l \<Longrightarrow> main_out (ls @ [l]) = main_out ls @ [l]"
  by (simp add: main_out_def)

lemma winv_printed:
  assumes "worker_inv s t" and "pool s ! t = Running (Printf l # cs)"
  shows "is_worker_line (worker_ident t) l"
proof -
  from assms obtain pre where "thread_func (worker_ident t) = pre @ Printf l # cs"
    by (auto simp: worker_inv_def)
  then have "Printf l \<in> set (thread_func (worker_ident t))"
    by simp
  from thread_func_members [OF this] show ?thesis
    by simp
qed

lemma common_thread_step:
  assumes c: "common N s" and st: "thread_step t s = Some s'"
  shows "common N s'"
proof -
  from st have t: "t < length (pool s)"
    by (simp add: thread_step_enabled)
  from c t have wt: "worker_inv s t" and tN: "t < unat N"
    by (simp_all add: common_def)
  from thread_step_cases [OF st] show ?thesis
  proof (elim disjE exE conjE)
    fix p v
    assume cr: "pool s ! t = Created p" and v: "thread_id s ! p = Some v"
      and s': "s' = s\<lparr>pool := (pool s)[t := Running (thread_func v)]\<rparr>"
    from wt cr v have pv: "p = t" "v = worker_ident t" and pr: "worker_out t (stdout s) = []"
      by (auto simp: worker_inv_def)
    have "worker_inv s' u" if "u < length (pool s)" for u
    proof (cases "u = t")
      case True
      with s' pv pr t show ?thesis
        by (simp add: worker_inv_def)
    next
      case False
      with s' have "worker_inv s' u = worker_inv s u"
        by (intro winv_frame) simp_all
      with c that show ?thesis
        by (simp add: common_def)
    qed
    with c s' show ?thesis
      by (simp add: common_def)
  next
    fix l cs
    assume ru: "pool s ! t = Running (Printf l # cs)"
      and s': "s' = s\<lparr>pool := (pool s)[t := Running cs], stdout := stdout s @ [l]\<rparr>"
    have wl: "is_worker_line (worker_ident t) l"
      using winv_printed [OF wt ru] .
    from wt ru obtain pre where pre: "thread_func (worker_ident t) = pre @ Printf l # cs"
      and pr: "worker_out t (stdout s) = prints pre"
      by (auto simp: worker_inv_def)
    have "worker_inv s' u" if "u < length (pool s)" for u
    proof (cases "u = t")
      case True
      have "thread_func (worker_ident t) = (pre @ [Printf l]) @ cs"
        using pre by simp
      moreover have "worker_out t (stdout s @ [l]) = prints (pre @ [Printf l])"
        using wl pr by (simp add: wproj_snoc prints_append)
      moreover have "pool s' ! t = Running cs"
        using s' t by simp
      ultimately show ?thesis
        using True s' by (intro winv_running [of s' u cs "pre @ [Printf l]"]) simp_all
    next
      case False
      from that c have "u < unat N"
        by (simp add: common_def)
      from wproj_snoc_other [OF wl tN this False] s' False
      have "worker_inv s' u = worker_inv s u"
        by (intro winv_frame) simp_all
      with c that show ?thesis
        by (simp add: common_def)
    qed
    with c s' wl t show ?thesis
      by (auto simp: common_def)
  next
    fix c0 cs
    assume ru: "pool s ! t = Running (c0 # cs)" and np: "\<forall>l. c0 \<noteq> Printf l"
      and s': "s' = s\<lparr>pool := (pool s)[t := Running cs]\<rparr>"
    from wt ru obtain pre where pre: "thread_func (worker_ident t) = pre @ c0 # cs"
      and pr: "worker_out t (stdout s) = prints pre"
      by (auto simp: worker_inv_def)
    have "prints [c0] = []"
      using np by (cases c0) simp_all
    then have pp: "prints (pre @ [c0]) = prints pre"
      by (simp add: prints_append)
    have "worker_inv s' u" if "u < length (pool s)" for u
    proof (cases "u = t")
      case True
      have "thread_func (worker_ident t) = (pre @ [c0]) @ cs"
        using pre by simp
      moreover have "pool s' ! t = Running cs"
        using s' t by simp
      ultimately show ?thesis
        using True s' pp pr by (intro winv_running [of s' u cs "pre @ [c0]"]) simp_all
    next
      case False
      with s' have "worker_inv s' u = worker_inv s u"
        by (intro winv_frame) simp_all
      with c that show ?thesis
        by (simp add: common_def)
    qed
    with c s' show ?thesis
      by (simp add: common_def)
  qed
qed

lemma thread_step_view:
  assumes c: "common N s" and st: "thread_step t s = Some s'"
  shows "main_k s' = main_k s \<and> threads s' = threads s \<and> thread_id s' = thread_id s \<and>
     errno s' = errno s \<and> stderr s' = stderr s \<and> exit_code s' = exit_code s \<and>
     exit_code s = None \<and> length (pool s') = length (pool s) \<and> t < length (pool s) \<and>
     pool s ! t \<noteq> Joined \<and> (\<forall>u. (pool s' ! u = Joined) = (pool s ! u = Joined)) \<and>
     main_out (stdout s') = main_out (stdout s) \<and>
     (stdout s \<noteq> [] \<longrightarrow> stdout s' \<noteq> [] \<and> hd (stdout s') = hd (stdout s))"
proof -
  from st have t: "t < length (pool s)" and ex: "exit_code s = None"
    and nj: "pool s ! t \<noteq> Joined"
    by (simp_all add: thread_step_enabled)
  from c t have wt: "worker_inv s t"
    by (simp add: common_def)
  have upd: "((pool s)[t := Running cs] ! u = Joined) = (pool s ! u = Joined)" for cs u
    using t nj by (cases "u = t") simp_all
  from thread_step_cases [OF st] show ?thesis
  proof (elim disjE exE conjE)
    fix l cs
    assume ru: "pool s ! t = Running (Printf l # cs)"
      and s': "s' = s\<lparr>pool := (pool s)[t := Running cs], stdout := stdout s @ [l]\<rparr>"
    from mproj_snoc_worker [OF winv_printed [OF wt ru]] s' t ex nj upd show ?thesis
      by simp
  qed (use t ex nj upd in simp_all)
qed

lemma phase_thread_step:
  assumes c: "common N s" and st: "thread_step t s = Some s'" and ph: "at_phase os N ph s"
  shows "at_phase os N ph s'"
proof -
  note v = thread_step_view [OF c st]
  show ?thesis
  proof (cases ph)
    case PStart
    with ph v show ?thesis by simp
  next
    case (PSpawn k)
    with ph v show ?thesis by (simp add: spawning_def)
  next
    case (PCreate k)
    with ph v show ?thesis by (simp add: spawning_def)
  next
    case (PPerror k)
    with ph v show ?thesis by (simp add: spawning_def)
  next
    case (PRetErr k)
    with ph v show ?thesis by (simp add: spawning_def)
  next
    case (PExitErr k)
    with ph v show ?thesis by simp
  next
    case (PJoin j)
    with ph v show ?thesis by (simp add: joining_def)
  next
    case PRetOk
    with ph v show ?thesis by (auto simp: joining_def)
  next
    case PExitOk
    with ph v show ?thesis by simp
  qed
qed

lemma inv_thread_step: "proc_inv os N s \<Longrightarrow> thread_step t s = Some s' \<Longrightarrow> proc_inv os N s'"
  unfolding proc_inv_def using common_thread_step phase_thread_step by blast

subsection \<open>Steps of the launcher keep the invariant\<close>

lemma wid_alt: "of_nat k + 1 = worker_ident k"
  by (simp add: worker_ident_def)

lemma main_step_Some:
  "main_step os s = Some s' \<longleftrightarrow>
     exit_code s = None \<and>
     (\<exists>c cs. main_k s = c # cs \<and> main_call os c (s\<lparr>main_k := cs\<rparr>) = Some s')"
  by (auto simp: main_step_def split: list.splits)

lemma wproj_fresh:
  assumes "\<forall>l\<in>set ls. is_main_line l \<or> (\<exists>t<k. is_worker_line (worker_ident t) l)"
    and "k < unat (N :: u16)"
  shows "worker_out k ls = []"
proof -
  have "\<not> is_worker_line (worker_ident k) l" if "l \<in> set ls" for l
  proof
    assume w: "is_worker_line (worker_ident k) l"
    with worker_line_not_main [OF w] assms(1) that
    obtain t where t: "t < k" and wt: "is_worker_line (worker_ident t) l"
      by blast
    from worker_line_unique [OF w wt] have "worker_ident k = worker_ident t" .
    from wid_inj [OF assms(2) _ this] t assms(2) show False
      by simp
  qed
  then show ?thesis
    by (simp add: worker_out_def filter_empty_conv)
qed

lemma main_lines [simp]:
  "is_main_line creating_line" "is_main_line waiting_line" "is_main_line all_finished_line"
  by (simp_all add: is_main_line_def)

lemma common_stdout_main:
  assumes "common N s" and "is_main_line l"
  shows "common N (s\<lparr>main_k := cs, stdout := stdout s @ [l]\<rparr>)"
proof -
  let ?s' = "s\<lparr>main_k := cs, stdout := stdout s @ [l]\<rparr>"
  have "worker_inv ?s' u = worker_inv s u" for u
    using wproj_snoc_main [OF assms(2)] by (intro winv_frame) simp_all
  with assms show ?thesis
    by (auto simp: common_def)
qed

lemma common_frame:
  assumes "common N s" and "threads s' = threads s" and "thread_id s' = thread_id s"
    and "pool s' = pool s" and "stdout s' = stdout s"
  shows "common N s'"
proof -
  have "worker_inv s' u = worker_inv s u" for u
    using assms by (intro winv_frame) simp_all
  with assms show ?thesis
    by (simp add: common_def)
qed

lemma step_PStart:
  assumes c: "common N s" and ph: "at_phase os N PStart s" and st: "main_step os s = Some s'"
  shows "common N s' \<and> at_phase os N (PSpawn 0) s'"
proof -
  from ph st have s': "s' = s\<lparr>main_k := spawn_loop os N 0, stdout := stdout s @ [creating_line]\<rparr>"
    by (auto simp: main_step_Some launch_def)
  from common_stdout_main [OF c, of creating_line] s' have "common N s'"
    by simp
  moreover from ph s' have "at_phase os N (PSpawn 0) s'"
    by (simp add: spawning_def main_out_def)
  ultimately show ?thesis ..
qed

lemma step_PSpawn_lt:
  assumes c: "common N s" and ph: "at_phase os N (PSpawn k) s" and k: "k < unat N"
    and st: "main_step os s = Some s'"
  shows "common N s' \<and> at_phase os N (PCreate k) s'"
proof -
  have u: "unat (of_nat k :: u16) = k"
    using k by (intro unat_of_nat_u16 [of k N]) simp
  from c have len: "length (thread_id s) = unat N"
    by (simp add: common_def)
  from ph have lp: "length (pool s) = k"
    by (simp add: spawning_def)
  from ph st k len have s': "s' = s\<lparr>main_k :=
      Create (of_nat k) (create_rc os k) (create_errno os k) #
       (if create_rc os k \<noteq> 0 then [Perror create_error_msg, Return (RInt (- 1))]
        else spawn_loop os N (of_nat (Suc k))),
      thread_id := (thread_id s)[k := Some (worker_ident k)]\<rparr>"
    by (auto simp: main_step_Some spawn_loop_step u wid_alt simp del: of_nat_Suc)
  have "worker_inv s' u = worker_inv s u" if "u < length (pool s)" for u
    using that lp s' by (intro winv_frame) simp_all
  with c s' lp have "common N s'"
    by (simp add: common_def)
  moreover from ph s' k len have "at_phase os N (PCreate k) s'"
    by (simp add: spawning_def del: of_nat_Suc)
  ultimately show ?thesis ..
qed

lemma step_PSpawn_eq:
  assumes c: "common N s" and ph: "at_phase os N (PSpawn (unat N)) s"
    and st: "main_step os s = Some s'"
  shows "common N s' \<and> at_phase os N (PJoin 0) s'"
proof -
  from ph st have s': "s' = s\<lparr>main_k :=
      join_loop N 0 @ [Printf all_finished_line, Return (RInt 0)],
      stdout := stdout s @ [waiting_line]\<rparr>"
    by (auto simp: main_step_Some spawn_loop_done)
  from common_stdout_main [OF c, of waiting_line] s' have "common N s'"
    by simp
  moreover from ph s' have "at_phase os N (PJoin 0) s'"
    by (simp add: spawning_def joining_def main_out_def)
  ultimately show ?thesis ..
qed

lemma step_PCreate_ok:
  assumes c: "common N s" and ph: "at_phase os N (PCreate k) s" and rc: "create_rc os k = 0"
    and st: "main_step os s = Some s'"
  shows "common N s' \<and> at_phase os N (PSpawn (Suc k)) s'"
proof -
  from ph have k: "k < unat N" and lp: "length (pool s) = k"
    and tid: "thread_id s ! k = Some (worker_ident k)"
    by (simp_all add: spawning_def)
  have u: "unat (of_nat k :: u16) = k"
    using k by (intro unat_of_nat_u16 [of k N]) simp
  from c have len: "length (threads s) = unat N"
    by (simp add: common_def)
  from ph st rc k len lp have s': "s' = s\<lparr>main_k := spawn_loop os N (of_nat (Suc k)),
      threads := (threads s)[k := Some k], pool := pool s @ [Created k]\<rparr>"
    by (auto simp: main_step_Some u simp del: of_nat_Suc)
  have fresh: "worker_out k (stdout s) = []"
    using c lp k by (intro wproj_fresh [of _ _ N]) (simp_all add: common_def)
  have w: "worker_inv s' u" if "u < Suc k" for u
  proof (cases "u = k")
    case True
    with s' lp tid fresh show ?thesis
      by (simp add: worker_inv_def nth_append)
  next
    case False
    with that have uk: "u < k" by simp
    with s' lp have "worker_inv s' u = worker_inv s u"
      by (intro winv_frame) (simp_all add: nth_append)
    with c uk lp show ?thesis
      by (simp add: common_def)
  qed
  have "common N s'"
    unfolding common_def
  proof (intro conjI allI impI ballI)
    fix l assume "l \<in> set (stdout s')"
    with c s' lp show "is_main_line l \<or> (\<exists>t<length (pool s'). is_worker_line (worker_ident t) l)"
      by (auto simp: common_def less_Suc_eq)
  qed (use c s' lp k w tid in \<open>auto simp: common_def nth_list_update less_Suc_eq\<close>)
  moreover from ph s' k rc lp have "at_phase os N (PSpawn (Suc k)) s'"
    by (auto simp: spawning_def nth_append less_Suc_eq simp del: of_nat_Suc)
  ultimately show ?thesis ..
qed

lemma step_PCreate_fail:
  assumes c: "common N s" and ph: "at_phase os N (PCreate k) s" and rc: "create_rc os k \<noteq> 0"
    and st: "main_step os s = Some s'"
  shows "common N s' \<and> at_phase os N (PPerror k) s'"
proof -
  from ph st rc have s': "s' = s\<lparr>main_k := [Perror create_error_msg, Return (RInt (- 1))],
      errno := create_errno os k\<rparr>"
    by (auto simp: main_step_Some)
  from common_frame [OF c, of s'] s' have "common N s'"
    by simp
  moreover from ph s' rc have "at_phase os N (PPerror k) s'"
    by (simp add: spawning_def)
  ultimately show ?thesis ..
qed

lemma step_PPerror:
  assumes c: "common N s" and ph: "at_phase os N (PPerror k) s"
    and st: "main_step os s = Some s'"
  shows "common N s' \<and> at_phase os N (PRetErr k) s'"
proof -
  from ph st have s': "s' = s\<lparr>main_k := [Return (RInt (- 1))], stderr := [diag os k]\<rparr>"
    by (auto simp: main_step_Some diag_def)
  from common_frame [OF c, of s'] s' have "common N s'"
    by simp
  moreover from ph s' have "at_phase os N (PRetErr k) s'"
    by (simp add: spawning_def)
  ultimately show ?thesis ..
qed

lemma step_PRetErr:
  assumes c: "common N s" and ph: "at_phase os N (PRetErr k) s"
    and st: "main_step os s = Some s'"
  shows "common N s' \<and> at_phase os N (PExitErr k) s'"
proof -
  from ph st have s': "s' = s\<lparr>main_k := [], exit_code := Some (- 1)\<rparr>"
    by (auto simp: main_step_Some)
  from common_frame [OF c, of s'] s' have "common N s'"
    by simp
  moreover from ph s' have "at_phase os N (PExitErr k) s'"
    by (simp add: spawning_def)
  ultimately show ?thesis ..
qed

lemma step_PJoin_lt:
  assumes c: "common N s" and ph: "at_phase os N (PJoin j) s" and j: "j < unat N"
    and st: "main_step os s = Some s'"
  shows "common N s' \<and> at_phase os N (PJoin (Suc j)) s'"
proof -
  have u: "unat (of_nat j :: u16) = j"
    using j by (intro unat_of_nat_u16 [of j N]) simp
  from ph have lp: "length (pool s) = unat N"
    by (simp add: joining_def)
  from c lp j have len: "length (threads s) = unat N" and h: "threads s ! j = Some j"
    and wj: "worker_inv s j"
    by (simp_all add: common_def)
  from ph have mk: "main_k s = Join (of_nat j) #
      join_loop N (of_nat (Suc j)) @ [Printf all_finished_line, Return (RInt 0)]"
    using j by (simp add: join_loop_step del: of_nat_Suc)
  from st mk len h j lp have fin: "pool s ! j = Running []"
    and s': "s' = s\<lparr>main_k :=
        join_loop N (of_nat (Suc j)) @ [Printf all_finished_line, Return (RInt 0)],
      pool := (pool s)[j := Joined]\<rparr>"
    by (auto simp: main_step_Some u split: if_splits simp del: of_nat_Suc)
  have w: "worker_inv s' u" if "u < unat N" for u
  proof (cases "u = j")
    case True
    with s' wj fin lp j show ?thesis
      by (auto simp: worker_inv_def)
  next
    case False
    with s' have "worker_inv s' u = worker_inv s u"
      by (intro winv_frame) simp_all
    with c that lp show ?thesis
      by (simp add: common_def)
  qed
  from c s' lp w have "common N s'"
    by (simp add: common_def)
  moreover from ph s' j lp have "at_phase os N (PJoin (Suc j)) s'"
    by (auto simp: joining_def nth_list_update less_Suc_eq simp del: of_nat_Suc)
  ultimately show ?thesis ..
qed

lemma step_PJoin_eq:
  assumes c: "common N s" and ph: "at_phase os N (PJoin (unat N)) s"
    and st: "main_step os s = Some s'"
  shows "common N s' \<and> at_phase os N PRetOk s'"
proof -
  from ph st have s': "s' = s\<lparr>main_k := [Return (RInt 0)],
      stdout := stdout s @ [all_finished_line]\<rparr>"
    by (auto simp: main_step_Some join_loop_done)
  from common_stdout_main [OF c, of all_finished_line] s' have "common N s'"
    by simp
  moreover from ph s' have "at_phase os N PRetOk s'"
    by (simp add: joining_def main_out_def)
  ultimately show ?thesis ..
qed

lemma step_PRetOk:
  assumes c: "common N s" and ph: "at_phase os N PRetOk s"
    and st: "main_step os s = Some s'"
  shows "common N s' \<and> at_phase os N PExitOk s'"
proof -
  from ph st have s': "s' = s\<lparr>main_k := [], exit_code := Some 0\<rparr>"
    by (auto simp: main_step_Some)
  from common_frame [OF c, of s'] s' have "common N s'"
    by simp
  moreover from ph s' have "at_phase os N PExitOk s'"
    by (simp add: joining_def)
  ultimately show ?thesis ..
qed

lemma inv_main_step:
  assumes i: "proc_inv os N s" and st: "main_step os s = Some s'"
  shows "proc_inv os N s'"
proof -
  from i obtain ph where c: "common N s" and ph: "at_phase os N ph s"
    by (auto simp: proc_inv_def)
  have "\<exists>ph'. common N s' \<and> at_phase os N ph' s'"
  proof (cases ph)
    case PStart
    with step_PStart [OF c _ st] ph show ?thesis by blast
  next
    case (PSpawn k)
    with ph have "k < unat N \<or> k = unat N" by auto
    with step_PSpawn_lt [OF c _ _ st] step_PSpawn_eq [OF c _ st] ph PSpawn show ?thesis
      by blast
  next
    case (PCreate k)
    with step_PCreate_ok [OF c _ _ st] step_PCreate_fail [OF c _ _ st] ph show ?thesis
      by blast
  next
    case (PPerror k)
    with step_PPerror [OF c _ st] ph show ?thesis by blast
  next
    case (PRetErr k)
    with step_PRetErr [OF c _ st] ph show ?thesis by blast
  next
    case (PExitErr k)
    with ph st show ?thesis by (simp add: main_step_Some)
  next
    case (PJoin j)
    with ph have "j < unat N \<or> j = unat N" by auto
    with step_PJoin_lt [OF c _ _ st] step_PJoin_eq [OF c _ st] ph PJoin show ?thesis
      by blast
  next
    case PRetOk
    with step_PRetOk [OF c _ st] ph show ?thesis by blast
  next
    case PExitOk
    with ph st show ?thesis by (simp add: main_step_Some)
  qed
  then show ?thesis
    by (auto simp: proc_inv_def)
qed

lemma inv_init: "proc_inv os N (init os N)"
proof -
  have "common N (init os N)"
    by (simp add: common_def init_def)
  moreover have "at_phase os N PStart (init os N)"
    by (simp add: init_def)
  ultimately show ?thesis
    unfolding proc_inv_def by blast
qed

lemma inv_step: "proc_inv os N s \<Longrightarrow> step os a s = Some s' \<Longrightarrow> proc_inv os N s'"
  by (cases a) (auto intro: inv_main_step inv_thread_step)

lemma inv_run: "proc_inv os N s \<Longrightarrow> run os sched s = Some s' \<Longrightarrow> proc_inv os N s'"
proof (induction sched arbitrary: s)
  case Nil
  then show ?case by simp
next
  case (Cons a sched)
  then show ?case
    by (auto split: option.splits dest: inv_step)
qed

lemma inv_reachable: "run os sched (init os N) = Some s \<Longrightarrow> proc_inv os N s"
  using inv_init inv_run by blast

subsection \<open>Every run is finite and none gets stuck\<close>

lemma length_thread_func: "length (thread_func v) = 12"
  by (simp add: thread_func_calls concat_replicate_5)

lemma sum_list_map_update:
  "t < length xs \<Longrightarrow>
   sum_list (map f (xs[t := x])) + f (xs ! t) = sum_list (map f xs) + (f x :: nat)"
proof (induction xs arbitrary: t)
  case Nil
  then show ?case by simp
next
  case (Cons a xs)
  then show ?case
    by (cases t) (simp_all add: add.assoc add.left_commute)
qed

lemma fuel_main_step:
  assumes "main_step os s = Some s'"
  shows "fuel s' < fuel s"
proof -
  from assms obtain c cs where mk: "main_k s = c # cs"
    and mc: "main_call os c (s\<lparr>main_k := cs\<rparr>) = Some s'"
    by (auto simp: main_step_Some)
  show ?thesis
  proof (cases c)
    case (Join k)
    with mc obtain h where h: "h < length (pool s)" "pool s ! h = Running []"
      and s': "s' = s\<lparr>main_k := cs, pool := (pool s)[h := Joined]\<rparr>"
      by (auto split: if_splits option.splits)
    from sum_list_map_update [OF h(1), of tfuel Joined] h(2)
    have "sum_list (map tfuel ((pool s)[h := Joined])) = sum_list (map tfuel (pool s))"
      by simp
    with s' mk Join show ?thesis
      by (simp add: fuel_def)
  qed (use mc mk in \<open>auto simp: fuel_def split: if_splits retval.splits\<close>)
qed

lemma fuel_thread_step:
  assumes "thread_step t s = Some s'"
  shows "fuel s' < fuel s"
proof -
  from assms have t: "t < length (pool s)"
    by (simp add: thread_step_enabled)
  note u = sum_list_map_update [OF t, of tfuel]
  from thread_step_cases [OF assms] show ?thesis
  proof (elim disjE exE conjE)
    fix p v
    assume "pool s ! t = Created p"
      and "s' = s\<lparr>pool := (pool s)[t := Running (thread_func v)]\<rparr>"
    with u [of "Running (thread_func v)"] show ?thesis
      by (simp add: fuel_def length_thread_func)
  next
    fix l cs
    assume "pool s ! t = Running (Printf l # cs)"
      and "s' = s\<lparr>pool := (pool s)[t := Running cs], stdout := stdout s @ [l]\<rparr>"
    with u [of "Running cs"] show ?thesis
      by (simp add: fuel_def)
  next
    fix c cs
    assume "pool s ! t = Running (c # cs)"
      and "s' = s\<lparr>pool := (pool s)[t := Running cs]\<rparr>"
    with u [of "Running cs"] show ?thesis
      by (simp add: fuel_def)
  qed
qed

lemma fuel_step: "step os a s = Some s' \<Longrightarrow> fuel s' < fuel s"
  by (cases a) (auto intro: fuel_main_step fuel_thread_step)

lemma fuel_run: "run os sched s = Some s' \<Longrightarrow> length sched + fuel s' \<le> fuel s"
proof (induction sched arbitrary: s)
  case Nil
  then show ?case by simp
next
  case (Cons a sched)
  then obtain s1 where a: "step os a s = Some s1" and r: "run os sched s1 = Some s'"
    by (auto split: option.splits)
  from Cons.IH [OF r] fuel_step [OF a] show ?case
    by simp
qed

lemma spawn_ok_length: "length (concat (map (spawn_ok os) [0..<k])) = 2 * k"
  by (induction k) (simp_all add: spawn_ok_def)

lemma spawn_ok_creates: "length (filter is_create (concat (map (spawn_ok os) [0..<k]))) = k"
  by (induction k) (simp_all add: spawn_ok_def)

lemma spawn_ok_stores: "length (filter is_store (concat (map (spawn_ok os) [0..<k]))) = k"
  by (induction k) (simp_all add: spawn_ok_def)

lemma spawn_ok_joins: "filter is_join (concat (map (spawn_ok os) [0..<k])) = []"
  by (induction k) (simp_all add: spawn_ok_def)

lemma spawn_ok_prints: "prints (concat (map (spawn_ok os) [0..<k])) = []"
  by (induction k) (simp_all add: spawn_ok_def prints_append)

lemma joins_prints: "prints (map (\<lambda>j. Join (of_nat j)) js) = []"
  by (induction js) simp_all

lemma joins_creates: "filter is_create (map (\<lambda>j. Join (of_nat j)) js) = []"
  by (induction js) simp_all

lemma joins_stores: "filter is_store (map (\<lambda>j. Join (of_nat j)) js) = []"
  by (induction js) simp_all

lemma joins_joins: "filter is_join (map (\<lambda>j. Join (of_nat j)) js) = map (\<lambda>j. Join (of_nat j)) js"
  by (induction js) simp_all

lemma fuel_init: "fuel (init os N) \<le> 16 * unat N + 4"
proof (cases "first_failure os N")
  case None
  from launch_ok [OF this] show ?thesis
    by (simp add: fuel_def init_def spawn_ok_length spawn_ok_creates joins_creates)
next
  case (Some k)
  then have "k < unat N"
    by (simp add: first_failure_Some)
  with launch_fail [OF Some] show ?thesis
    by (simp add: fuel_def init_def spawn_ok_length spawn_ok_creates)
qed

lemma run_bounded: "run os sched (init os N) = Some s \<Longrightarrow> length sched \<le> 16 * unat N + 4"
  using fuel_run [of os sched "init os N" s] fuel_init [of os N] by simp

lemma thread_call_enabled:
  assumes "c \<in> set (thread_func v)"
  shows "thread_call c s \<noteq> None"
  using thread_func_members [OF assms] by auto

lemma progress:
  assumes i: "proc_inv os N s" and ex: "exit_code s = None"
  shows "\<exists>a s'. step os a s = Some s'"
proof -
  from i obtain ph where c: "common N s" and ph: "at_phase os N ph s"
    by (auto simp: proc_inv_def)
  have m: "main_step os s \<noteq> None \<Longrightarrow> ?thesis"
    using step.simps(1) [of os s] by (metis not_None_eq)
  have w: "thread_step t s \<noteq> None \<Longrightarrow> ?thesis" for t
    using step.simps(2) [of os t s] by (metis not_None_eq)
  from c have len: "length (threads s) = unat N" "length (thread_id s) = unat N"
    by (simp_all add: common_def)
  show ?thesis
  proof (cases ph)
    case PStart
    with ph ex show ?thesis
      by (intro m) (simp add: main_step_def launch_def)
  next
    case (PSpawn k)
    show ?thesis
    proof (cases "k < unat N")
      case True
      have u: "unat (of_nat k :: u16) = k"
        using True by (intro unat_of_nat_u16 [of k N]) simp
      from PSpawn ph ex True len show ?thesis
        by (intro m) (simp add: main_step_def spawn_loop_step u del: of_nat_Suc)
    next
      case False
      with PSpawn ph have "k = unat N" by simp
      with PSpawn ph ex show ?thesis
        by (intro m) (simp add: main_step_def spawn_loop_done)
    qed
  next
    case (PCreate k)
    with ph have k: "k < unat N" by simp
    have u: "unat (of_nat k :: u16) = k"
      using k by (intro unat_of_nat_u16 [of k N]) simp
    from PCreate ph ex len k show ?thesis
      by (intro m) (simp add: main_step_def u del: of_nat_Suc)
  next
    case (PPerror k)
    with ph ex show ?thesis
      by (intro m) (simp add: main_step_def)
  next
    case (PRetErr k)
    with ph ex show ?thesis
      by (intro m) (simp add: main_step_def)
  next
    case (PExitErr k)
    with ph ex show ?thesis by simp
  next
    case (PJoin j)
    show ?thesis
    proof (cases "j < unat N")
      case True
      have u: "unat (of_nat j :: u16) = j"
        using True by (intro unat_of_nat_u16 [of j N]) simp
      from PJoin ph have lp: "length (pool s) = unat N" and nj: "pool s ! j \<noteq> Joined"
        using True by (simp_all add: joining_def)
      from c lp True have h: "threads s ! j = Some j" and tid: "thread_id s ! j = Some (worker_ident j)"
        and wj: "worker_inv s j"
        by (simp_all add: common_def)
      from PJoin ph True have mk: "main_k s = Join (of_nat j) #
          join_loop N (of_nat (Suc j)) @ [Printf all_finished_line, Return (RInt 0)]"
        by (simp add: join_loop_step del: of_nat_Suc)
      show ?thesis
      proof (cases "pool s ! j")
        case (Created p)
        with wj have "p = j" by (simp add: worker_inv_def)
        with Created tid True lp len ex show ?thesis
          by (intro w [of j]) (simp add: thread_step_def)
      next
        case (Running cs0)
        show ?thesis
        proof (cases cs0)
          case Nil
          with Running mk h True lp len ex show ?thesis
            by (intro m) (simp add: main_step_def u del: of_nat_Suc)
        next
          case (Cons c0 cs)
          with Running wj have "c0 \<in> set (thread_func (worker_ident j))"
            by (auto simp: worker_inv_def)
          from thread_call_enabled [OF this] Running Cons True lp ex show ?thesis
            by (intro w [of j]) (simp add: thread_step_def)
        qed
      next
        case Joined
        with nj show ?thesis by simp
      qed
    next
      case False
      with PJoin ph have "j = unat N" by simp
      with PJoin ph ex show ?thesis
        by (intro m) (simp add: main_step_def join_loop_done)
    qed
  next
    case PRetOk
    with ph ex show ?thesis
      by (intro m) (simp add: main_step_def)
  next
    case PExitOk
    with ph ex show ?thesis by simp
  qed
qed

subsection \<open>Counting the lines\<close>

lemma length_classes:
  assumes "\<forall>l\<in>set ls. is_main_line l \<or> (\<exists>t<k. is_worker_line (worker_ident t) l)"
    and "k \<le> unat (N :: u16)"
  shows "length ls = length (main_out ls) + (\<Sum>t<k. length (worker_out t ls))"
  using assms(1)
proof (induction ls)
  case Nil
  then show ?case by (simp add: main_out_def worker_out_def)
next
  case (Cons l ls)
  then have ih: "length ls = length (main_out ls) + (\<Sum>t<k. length (worker_out t ls))"
    by simp
  show ?case
  proof (cases "is_main_line l")
    case True
    then have "worker_out t (l # ls) = worker_out t ls" for t
      using worker_line_not_main [of "worker_ident t" l] by (auto simp: worker_out_def)
    with True ih show ?thesis
      by (simp add: main_out_def)
  next
    case False
    with Cons.prems obtain t0 where t0: "t0 < k" and w0: "is_worker_line (worker_ident t0) l"
      by auto
    have "length (worker_out t (l # ls)) = length (worker_out t ls) + (if t = t0 then 1 else 0)"
      if "t < k" for t
    proof (cases "t = t0")
      case True
      with w0 show ?thesis by (simp add: worker_out_def)
    next
      case False
      have "\<not> is_worker_line (worker_ident t) l"
        using worker_line_unique [OF w0, of "worker_ident t"] wid_inj [of t0 N t] t0 that assms(2) False
        by auto
      with False show ?thesis by (simp add: worker_out_def)
    qed
    then have "(\<Sum>t<k. length (worker_out t (l # ls))) =
        (\<Sum>t<k. length (worker_out t ls) + (if t = t0 then 1 else 0))"
      by (intro sum.cong) simp_all
    also have "\<dots> = (\<Sum>t<k. length (worker_out t ls)) + 1"
      using t0 by (simp add: sum.distrib)
    finally show ?thesis
      using False ih by (simp add: main_out_def)
  qed
qed

subsection \<open>The example runs\<close>

lemma first_failure_os_ok: "first_failure os_ok 3 = None"
  by code_simp

lemma first_failure_os_eagain: "first_failure os_eagain 3 = Some 1"
  by code_simp

lemma run_os_ok: "run os_ok sched_ok (init os_ok 3) = Some final_ok"
  by code_simp

lemma run_os_eagain: "run os_eagain sched_eagain (init os_eagain 3) = Some final_eagain"
  by code_simp

lemma first_failure_os_stale: "first_failure os_stale 3 = Some 1"
  by code_simp

lemma run_os_stale: "run os_stale sched_eagain (init os_stale 3) = Some final_stale"
  by code_simp

subsection \<open>What the invariant gives at particular moments\<close>

lemma exited_cases:
  assumes "proc_inv os N s" and "exit_code s \<noteq> None"
  shows "(first_failure os N = None \<and> at_phase os N PExitOk s) \<or>
         (\<exists>k. first_failure os N = Some k \<and> at_phase os N (PExitErr k) s)"
proof -
  from assms obtain ph where ph: "at_phase os N ph s"
    by (auto simp: proc_inv_def)
  from ph assms(2) show ?thesis
    by (cases ph) (auto simp: first_failure_None first_failure_Some joining_def spawning_def)
qed

lemma failing_facts:
  assumes "first_failure os N = Some k" and "at_phase os N ph s"
  shows "length (pool s) \<le> k \<and> (\<forall>t<length (pool s). pool s ! t \<noteq> Joined) \<and>
     (exit_code s \<noteq> None \<longrightarrow>
        exit_code s = Some (- 1) \<and> main_k s = [] \<and> length (pool s) = k \<and>
        stderr s = [diag os k])"
proof -
  from assms(1) have k: "k < unat N" "create_rc os k \<noteq> 0" "\<forall>j<k. create_rc os j = 0"
    by (simp_all add: first_failure_Some)
  have le: "j \<le> k" if "\<forall>i<j. create_rc os i = 0" for j
    using that k(2) by (meson not_le_imp_less)
  have eq: "j = k" if "\<forall>i<j. create_rc os i = 0" "create_rc os j \<noteq> 0" for j
    using that k(2,3) by (meson linorder_neqE_nat)
  from assms(2) show ?thesis
  proof (cases ph)
    case (PJoin j)
    with assms(2) k show ?thesis by (simp add: joining_def)
  next
    case PRetOk
    with assms(2) k show ?thesis by (simp add: joining_def)
  next
    case PExitOk
    with assms(2) k show ?thesis by (simp add: joining_def)
  qed (use le eq in \<open>auto simp: spawning_def\<close>)
qed

lemma in_mproj: "is_main_line l \<Longrightarrow> l \<in> set ls \<Longrightarrow> l \<in> set (main_out ls)"
  by (simp add: main_out_def)

lemma all_finished_phase:
  assumes "all_finished_line \<in> set (stdout s)" and "at_phase os N ph s"
  shows "ph = PRetOk \<or> ph = PExitOk"
proof -
  have "all_finished_line \<in> set (main_out (stdout s))"
    using assms(1) by (intro in_mproj) simp_all
  with assms(2) main_lines_distinct show ?thesis
    by (cases ph) (auto simp: spawning_def main_out_def)
qed

lemma worker_complete:
  assumes "common N s" and "t < length (pool s)" and "pool s ! t = Joined"
  shows "worker_out t (stdout s) = replicate 5 (running_line (worker_ident t)) @ [finished_line (worker_ident t)]"
proof -
  from assms(1,2) have "worker_inv s t"
    by (simp add: common_def)
  with assms(3) show ?thesis
    by (simp add: worker_inv_def thread_func_prints)
qed

lemma success_output_length:
  assumes c: "common N s" and lp: "length (pool s) = unat N"
    and j: "\<forall>u<unat N. pool s ! u = Joined"
    and m: "main_out (stdout s) = [creating_line, waiting_line, all_finished_line]"
  shows "length (stdout s) = 3 + 6 * unat N"
proof -
  have "length (worker_out t (stdout s)) = 6" if "t < unat N" for t
    using worker_complete [OF c, of t] that lp j by simp
  then have "(\<Sum>t<unat N. length (worker_out t (stdout s))) = 6 * unat N"
    by simp
  moreover have "length (stdout s) =
      length (main_out (stdout s)) + (\<Sum>t<unat N. length (worker_out t (stdout s)))"
    using c lp by (intro length_classes [of _ _ N]) (simp_all add: common_def)
  ultimately show ?thesis
    using m by simp
qed

lemma worker_state:
  assumes "common N s" and "t < length (pool s)"
  shows "pool s ! t = Created t \<or>
         (\<exists>pre rest. pool s ! t = Running rest \<and> thread_func (worker_ident t) = pre @ rest) \<or>
         pool s ! t = Joined"
proof -
  from assms have "worker_inv s t"
    by (simp add: common_def)
  then show ?thesis
    by (cases "pool s ! t") (auto simp: worker_inv_def)
qed

lemma wid_Suc: "worker_ident t = of_nat (Suc t)"
  by (simp add: worker_ident_def)

lemma create_next:
  assumes c: "common N s" and ph: "at_phase os N ph s"
    and mk: "main_k s = Create k rc e # cs"
  shows "thread_id s ! unat k = Some (k + 1)"
proof (cases ph)
  case PStart
  with ph mk show ?thesis by (simp add: launch_def)
next
  case (PSpawn j)
  show ?thesis
  proof (cases "j < unat N")
    case True
    with PSpawn ph mk show ?thesis
      by (simp add: spawn_loop_step del: of_nat_Suc)
  next
    case False
    with PSpawn ph have "j = unat N" by simp
    with PSpawn ph mk show ?thesis
      by (simp add: spawn_loop_done)
  qed
next
  case (PCreate j)
  with ph have j: "j < unat N" and tid: "thread_id s ! j = Some (worker_ident j)"
    and k: "k = of_nat j"
    using mk by simp_all
  have "unat (of_nat j :: u16) = j"
    using j by (intro unat_of_nat_u16 [of j N]) simp
  with tid k show ?thesis
    by (simp add: wid_alt)
next
  case (PJoin j)
  show ?thesis
  proof (cases "j < unat N")
    case True
    with PJoin ph mk show ?thesis
      by (simp add: join_loop_step del: of_nat_Suc)
  next
    case False
    with PJoin ph have "j = unat N" by simp
    with PJoin ph mk show ?thesis
      by (simp add: join_loop_done)
  qed
qed (use ph mk in simp_all)

lemma run_mid_ok: "run os_ok [Main, Main] (init os_ok 3) = Some mid_ok"
  by code_simp

lemma spawn_ok_outputs: "filter is_output (concat (map (spawn_ok os) [0..<k])) = []"
  by (induction k) (simp_all add: spawn_ok_def)

lemma launch_prints:
  "prints (launch os N) =
     (case first_failure os N of
        None \<Rightarrow> [creating_line, waiting_line, all_finished_line]
      | Some k \<Rightarrow> [creating_line])"
proof (cases "first_failure os N")
  case None
  from launch_ok [OF this] None show ?thesis
    by (simp add: prints_append spawn_ok_prints joins_prints)
next
  case (Some k)
  from launch_fail [OF this] Some show ?thesis
    by (simp add: prints_append spawn_ok_prints)
qed

lemma launch_stores: "length (filter is_store (launch os N)) \<le> unat N"
proof (cases "first_failure os N")
  case None
  from launch_ok [OF this] show ?thesis
    by (simp add: spawn_ok_stores joins_stores)
next
  case (Some k)
  then have "k < unat N"
    by (simp add: first_failure_Some)
  with launch_fail [OF Some] show ?thesis
    by (simp add: spawn_ok_stores)
qed

lemma launch_joins: "length (filter is_join (launch os N)) \<le> unat N"
proof (cases "first_failure os N")
  case None
  from launch_ok [OF this] show ?thesis
    by (simp add: spawn_ok_joins joins_joins)
next
  case (Some k)
  from launch_fail [OF Some] show ?thesis
    by (simp add: spawn_ok_joins)
qed

lemma run_first_step:
  "run os_ok [Main] (init os_ok 3) =
     Some ((init os_ok 3)\<lparr>main_k := spawn_loop os_ok 3 0, stdout := [creating_line]\<rparr>)"
  by (simp add: main_step_def init_def launch_def)

lemma launch_failure_behaviour:
  assumes "first_failure os N = Some k" and "run os sched (init os N) = Some s"
  shows "length (pool s) \<le> k \<and>
     (\<forall>t<length (pool s).
        pool s ! t = Created t \<or>
        (\<exists>pre rest. pool s ! t = Running rest \<and> thread_func (of_nat (Suc t)) = pre @ rest)) \<and>
     (exit_code s \<noteq> None \<longrightarrow>
        exit_code s = Some (- 1) \<and> main_k s = [] \<and> length (pool s) = k \<and>
        stderr s =
          [create_error_msg @ '': '' @ strerror os (create_errno os k) @ ''\<newline>''])"
proof -
  have i: "proc_inv os N s"
    using assms(2) by (rule inv_reachable)
  then obtain ph where c: "common N s" and ph: "at_phase os N ph s"
    by (auto simp: proc_inv_def)
  note f = failing_facts [OF assms(1) ph]
  have "pool s ! t = Created t \<or>
      (\<exists>pre rest. pool s ! t = Running rest \<and> thread_func (of_nat (Suc t)) = pre @ rest)"
    if "t < length (pool s)" for t
    using worker_state [OF c that] f that by (auto simp: wid_Suc simp del: of_nat_Suc)
  with f show ?thesis
    by (simp add: diag_def)
qed



section \<open>The properties\<close>

text \<open>
  C1. For every identifier, \<open>thread_func\<close> performs exactly five iterations, each printing
  the line \<open>Thread: N running\<close> with the identifier in decimal and then calling \<open>sleep(1)\<close>;
  after the fifth it prints \<open>Thread: N finished\<close> once and returns the null pointer, which
  carries no value back to the launcher.
\<close>

theorem thread_func_five_iterations:
  "thread_func n =
     concat (replicate 5 [Printf (''Thread: '' @ fmt_d (uint n) @ '' running\<newline>''), Sleep 1])
     @ [Printf (''Thread: '' @ fmt_d (uint n) @ '' finished\<newline>''), Return RNull]"
  by (simp only: thread_func_def thread_loop_unfold running_line_def finished_line_def)

text \<open>
  C2. The run of \<open>main\<close> (three workers) in which every \<open>pthread_create\<close> succeeds, once
  the process has exited, whatever the schedule was: the exit status is 0; standard output
  starts with \<open>Creating threads\<close> and ends with \<open>All threads finished\<close>; the lines of
  \<open>main\<close> are its three, in this order, so the \<open>waiting for finish\<close> line lies between
  the first and the last; for each of the identifiers 1, 2, 3 the lines of that worker are
  five \<open>running\<close> lines followed by one \<open>finished\<close> line; every line is one of these, 21 in
  all (15 \<open>running\<close>, 3 \<open>finished\<close>, 3 of \<open>main\<close>).
\<close>

theorem main_three_workers_output:
  assumes "first_failure os 3 = None"
    and "run os sched (init os 3) = Some s"
    and "exit_code s \<noteq> None"
  shows "exit_code s = Some 0 \<and>
     hd (stdout s) = creating_line \<and> last (stdout s) = all_finished_line \<and>
     filter is_main_line (stdout s) = [creating_line, waiting_line, all_finished_line] \<and>
     map (\<lambda>v. filter (is_worker_line v) (stdout s)) [1, 2, 3] =
       map (\<lambda>v. replicate 5 (running_line v) @ [finished_line v]) [1, 2, 3] \<and>
     list_all (\<lambda>l. is_main_line l \<or> is_worker_line 1 l \<or> is_worker_line 2 l \<or>
                   is_worker_line 3 l) (stdout s) \<and>
     length (stdout s) = 21"
proof -
  have i: "proc_inv os 3 s"
    using assms(2) by (rule inv_reachable)
  then have c: "common 3 s"
    by (simp add: proc_inv_def)
  from exited_cases [OF i assms(3)] assms(1) have ph: "at_phase os 3 PExitOk s"
    by auto
  then have lp: "length (pool s) = unat (3 :: u16)" and j: "\<forall>u<unat (3 :: u16). pool s ! u = Joined"
    and m: "main_out (stdout s) = [creating_line, waiting_line, all_finished_line]"
    by (simp_all add: joining_def)
  have w: "worker_out t (stdout s) = replicate 5 (running_line (worker_ident t)) @ [finished_line (worker_ident t)]"
    if "t < 3" for t
    using worker_complete [OF c, of t] that lp j by simp
  have ids: "worker_ident 0 = 1" "worker_ident 1 = 2" "worker_ident 2 = 3" "worker_ident (Suc 0) = 2"
    by (simp_all add: worker_ident_def)
  have "length (stdout s) = 21"
    using success_output_length [OF c lp j m] by simp
  moreover have "list_all (\<lambda>l. is_main_line l \<or> is_worker_line 1 l \<or> is_worker_line 2 l \<or>
      is_worker_line 3 l) (stdout s)"
  proof -
    have "is_main_line l \<or> is_worker_line 1 l \<or> is_worker_line 2 l \<or> is_worker_line 3 l"
      if "l \<in> set (stdout s)" for l
    proof -
      from c that lp have "is_main_line l \<or> (\<exists>t<3. is_worker_line (worker_ident t) l)"
        by (simp add: common_def)
      moreover have "t = 0 \<or> t = 1 \<or> t = 2" if "t < 3" for t :: nat
        using that by arith
      ultimately show ?thesis
        using ids by metis
    qed
    then show ?thesis
      by (simp add: list_all_iff)
  qed
  moreover from w [of 0] w [of 1] w [of 2]
  have "map (\<lambda>v. filter (is_worker_line v) (stdout s)) [1, 2, 3] =
       map (\<lambda>v. replicate 5 (running_line v) @ [finished_line v]) [1, 2, 3]"
    by (simp add: ids worker_out_def)
  ultimately show ?thesis
    using ph m by (simp add: joining_def main_out_def)
qed

theorem main_three_workers_output_witness:
  "first_failure os_ok 3 = None \<and> run os_ok sched_ok (init os_ok 3) = Some final_ok \<and>
   exit_code final_ok = Some 0 \<and> length (stdout final_ok) = 21 \<and>
   filter (is_worker_line 2) (stdout final_ok) =
     [''Thread: 2 running\<newline>'', ''Thread: 2 running\<newline>'', ''Thread: 2 running\<newline>'',
      ''Thread: 2 running\<newline>'', ''Thread: 2 running\<newline>'', ''Thread: 2 finished\<newline>'']"
proof -
  have r: "replicate 5 (running_line 2) @ [finished_line 2] =
     [''Thread: 2 running\<newline>'', ''Thread: 2 running\<newline>'', ''Thread: 2 running\<newline>'',
      ''Thread: 2 running\<newline>'', ''Thread: 2 running\<newline>'', ''Thread: 2 finished\<newline>'']"
    by code_simp
  have "exit_code final_ok \<noteq> None"
    by (simp add: final_ok_def)
  from main_three_workers_output [OF first_failure_os_ok run_os_ok this] r
  show ?thesis
    using first_failure_os_ok run_os_ok by simp
qed

text \<open>
  C3. The diagnostic does not carry the failure of \<open>pthread_create\<close>. \<open>main\<close> only tests
  the value \<open>pthread_create\<close> returns against 0 and then calls \<open>perror\<close>, which prints the
  text of \<open>errno\<close>. Under \<open>os_stale\<close> the call for the second thread returns 11, whose text
  is \<open>Resource temporarily unavailable\<close>, and leaves \<open>errno\<close> at 0: the run ends with
  \<open>error creating thread\<close>, a colon and \<open>Success\<close> on the error stream. \<open>main\<close> returns -1,
  which the parent of the process reads as status 255.
\<close>

theorem create_failure_stale_errno:
  "create_rc os_stale 1 = 11 \<and> create_errno os_stale 1 = 0 \<and>
   strerror os_stale 11 = ''Resource temporarily unavailable'' \<and>
   first_failure os_stale 3 = Some 1 \<and>
   run os_stale sched_eagain (init os_stale 3) = Some final_stale \<and>
   stderr final_stale = [''error creating thread\<newline>: Success\<newline>''] \<and>
   exit_code final_stale = Some (- 1) \<and> exit_status (- 1) = 255"
proof -
  have "create_rc os_stale 1 = 11" "create_errno os_stale 1 = 0"
    "strerror os_stale 11 = ''Resource temporarily unavailable''"
    by (simp_all add: os_stale_def)
  moreover have "stderr final_stale = [''error creating thread\<newline>: Success\<newline>'']"
    "exit_code final_stale = Some (- 1)"
    by (simp_all add: final_stale_def)
  moreover have "exit_status (- 1) = 255"
    by (simp add: exit_status_def unat_eq_nat_uint uint_word_ariths)
  ultimately show ?thesis
    using first_failure_os_stale run_os_stale by simp
qed

text \<open>
  C4. At any moment of any run at which \<open>All threads finished\<close> is on standard output, it
  is the last line and occurs once; all \<open>num_threads\<close> workers exist and every one has been
  joined, hence has finished; and the output before that line holds each worker's five
  \<open>running\<close> lines followed by its \<open>finished\<close> line.
\<close>

theorem all_finished_after_workers:
  assumes "run os sched (init os N) = Some s" and "all_finished_line \<in> set (stdout s)"
  shows "\<exists>pre. stdout s = pre @ [all_finished_line] \<and> all_finished_line \<notin> set pre \<and>
     length (pool s) = unat N \<and>
     (\<forall>t<unat N. pool s ! t = Joined \<and>
        filter (is_worker_line (of_nat (Suc t))) pre =
          replicate 5 (running_line (of_nat (Suc t))) @ [finished_line (of_nat (Suc t))])"
proof -
  have i: "proc_inv os N s"
    using assms(1) by (rule inv_reachable)
  then obtain ph where c: "common N s" and ph: "at_phase os N ph s"
    by (auto simp: proc_inv_def)
  from all_finished_phase [OF assms(2) ph] ph
  have lp: "length (pool s) = unat N" and j: "\<forall>u<unat N. pool s ! u = Joined"
    and m: "main_out (stdout s) = [creating_line, waiting_line, all_finished_line]"
    and l: "last (stdout s) = all_finished_line"
    by (auto simp: joining_def)
  from assms(2) have ne: "stdout s \<noteq> []"
    by auto
  define pre where "pre = butlast (stdout s)"
  from ne l have split: "stdout s = pre @ [all_finished_line]"
    unfolding pre_def by (metis append_butlast_last_id)
  from m split have mp: "main_out pre = [creating_line, waiting_line]"
    by (simp add: mproj_snoc_main)
  have notin: "all_finished_line \<notin> set pre"
  proof
    assume "all_finished_line \<in> set pre"
    then have "all_finished_line \<in> set (main_out pre)"
      by (intro in_mproj) simp_all
    with mp main_lines_distinct show False
      by simp
  qed
  have "filter (is_worker_line (of_nat (Suc t))) pre =
      replicate 5 (running_line (of_nat (Suc t))) @ [finished_line (of_nat (Suc t))]"
    if "t < unat N" for t
  proof -
    have "worker_out t (stdout s) = worker_out t pre"
      unfolding split by (rule wproj_snoc_main) simp
    with worker_complete [OF c, of t] that lp j show ?thesis
      by (simp add: worker_out_def wid_Suc del: of_nat_Suc)
  qed
  with split notin lp j show ?thesis
    by blast
qed

theorem all_finished_after_workers_witness:
  "run os_ok sched_ok (init os_ok 3) = Some final_ok \<and>
   all_finished_line \<in> set (stdout final_ok) \<and>
   (\<exists>pre. stdout final_ok = pre @ [all_finished_line] \<and> all_finished_line \<notin> set pre \<and>
      pool final_ok ! 2 = Joined \<and>
      filter (is_worker_line 3) pre = replicate 5 (running_line 3) @ [finished_line 3])"
proof -
  have h: "all_finished_line \<in> set (stdout final_ok)"
    by (simp add: final_ok_def all_finished_line_def)
  from all_finished_after_workers [OF run_os_ok h]
  obtain pre where "stdout final_ok = pre @ [all_finished_line]"
    and "all_finished_line \<notin> set pre"
    and "\<forall>t<unat (3 :: u16). pool final_ok ! t = Joined \<and>
        filter (is_worker_line (of_nat (Suc t))) pre =
          replicate 5 (running_line (of_nat (Suc t))) @ [finished_line (of_nat (Suc t))]"
    by blast
  moreover from this(3) have "pool final_ok ! 2 = Joined \<and>
      filter (is_worker_line 3) pre = replicate 5 (running_line 3) @ [finished_line 3]"
    by (auto dest!: spec [of _ 2])
  ultimately show ?thesis
    using run_os_ok h by blast
qed

text \<open>
  C5. At any moment of any run: when the next call of \<open>main\<close> is \<open>pthread_create\<close> for
  index \<open>k\<close>, element \<open>k\<close> of \<open>thread_id\<close> already holds \<open>k + 1\<close>; the worker at position
  \<open>t\<close> of the pool has the identifier \<open>t + 1\<close> in its element of \<open>thread_id\<close>; the
  identifier has not wrapped around, so the identifiers of the workers are 1, 2, ... without
  repetition or gap; the worker either still holds the pointer to its own element \<open>t\<close>,
  or runs \<open>thread_func\<close> for the identifier \<open>t + 1\<close> it read through it, or has been joined.
  When the process has exited with 0 there are \<open>num_threads\<close> workers.
\<close>

theorem identifiers_assigned:
  assumes "run os sched (init os N) = Some s"
  shows "(\<forall>k rc e cs. main_k s = Create k rc e # cs \<longrightarrow>
        thread_id s ! unat k = Some (k + 1)) \<and>
     (\<forall>t<length (pool s).
        t < unat N \<and> thread_id s ! t = Some (of_nat (t + 1)) \<and>
        unat (of_nat (t + 1) :: u16) = t + 1 \<and>
        (pool s ! t = Created t \<or>
         (\<exists>pre rest. pool s ! t = Running rest \<and> thread_func (of_nat (t + 1)) = pre @ rest) \<or>
         pool s ! t = Joined)) \<and>
     (exit_code s = Some 0 \<longrightarrow> length (pool s) = unat N)"
proof -
  have i: "proc_inv os N s"
    using assms(1) by (rule inv_reachable)
  then obtain ph where c: "common N s" and ph: "at_phase os N ph s"
    by (auto simp: proc_inv_def)
  have "t < unat N \<and> thread_id s ! t = Some (of_nat (t + 1)) \<and>
        unat (of_nat (t + 1) :: u16) = t + 1 \<and>
        (pool s ! t = Created t \<or>
         (\<exists>pre rest. pool s ! t = Running rest \<and> thread_func (of_nat (t + 1)) = pre @ rest) \<or>
         pool s ! t = Joined)"
    if tl: "t < length (pool s)" for t
  proof -
    from c tl have t: "t < unat N" and tid: "thread_id s ! t = Some (worker_ident t)"
      by (simp_all add: common_def)
    with unat_wid [OF t] worker_state [OF c tl] show ?thesis
      by (simp add: wid_Suc del: of_nat_Suc)
  qed
  moreover have "exit_code s = Some 0 \<longrightarrow> length (pool s) = unat N"
    using ph by (cases ph) (auto simp: joining_def)
  moreover have "thread_id s ! unat k = Some (k + 1)" if "main_k s = Create k rc e # cs"
    for k rc e cs
    using create_next [OF c ph that] .
  ultimately show ?thesis
    by blast
qed

theorem identifiers_assigned_witness:
  "run os_ok [Main, Main] (init os_ok 3) = Some mid_ok \<and>
   main_k mid_ok = Create 0 0 0 # tl (main_k mid_ok) \<and> thread_id mid_ok ! 0 = Some 1 \<and>
   run os_ok sched_ok (init os_ok 3) = Some final_ok \<and> (1 :: nat) < length (pool final_ok) \<and>
   thread_id final_ok ! 1 = Some 2 \<and> unat (2 :: u16) = 2 \<and> pool final_ok ! 1 = Joined \<and>
   exit_code final_ok = Some 0 \<and> length (pool final_ok) = unat (3 :: u16)"
proof -
  have m: "main_k mid_ok = Create 0 0 0 # tl (main_k mid_ok)"
    by (simp add: mid_ok_def)
  from identifiers_assigned [OF run_mid_ok] m have "thread_id mid_ok ! unat (0 :: u16) = Some (0 + 1)"
    by blast
  then have a: "thread_id mid_ok ! 0 = Some 1"
    by simp
  have h: "(1 :: nat) < length (pool final_ok)"
    by (simp add: final_ok_def)
  have e: "exit_code final_ok = Some 0"
    by (simp add: final_ok_def)
  from identifiers_assigned [OF run_os_ok] h e
  have "thread_id final_ok ! 1 = Some (of_nat (1 + 1))" and "length (pool final_ok) = unat (3 :: u16)"
    by blast+
  then show ?thesis
    using run_mid_ok run_os_ok m a h e by (simp add: final_ok_def)
qed

text \<open>
  C6. The texts \<open>main\<close> prints on standard output are its three lines when every creation
  succeeds and the first one alone otherwise. When every creation succeeds the calls of
  \<open>main\<close> are, in order: the \<open>printf\<close> of \<open>Creating threads\<close>; for each index the store of
  the identifier and \<open>pthread_create\<close>; the \<open>printf\<close> of the \<open>waiting for finish\<close> line; the
  \<open>pthread_join\<close> of every handle; the \<open>printf\<close> of \<open>All threads finished\<close>; \<open>return 0\<close>.
\<close>

theorem launcher_progress_points:
  "prints (launch os N) =
     (case first_failure os N of
        None \<Rightarrow> [creating_line, waiting_line, all_finished_line]
      | Some k \<Rightarrow> [creating_line]) \<and>
   (first_failure os N = None \<longrightarrow>
      launch os N =
        Printf creating_line # concat (map (spawn_ok os) [0..<unat N]) @
        Printf waiting_line # map (\<lambda>j. Join (of_nat j)) [0..<unat N] @
        [Printf all_finished_line, Return (RInt 0)])"
  using launch_prints [of os N] launch_ok [of os N] by simp

theorem launcher_progress_points_witness:
  "first_failure os_ok 3 = None \<and>
   prints (launch os_ok 3) =
     [''Creating threads\<newline>'', ''main(): threads created, waiting for finish...\<newline>'',
      ''All threads finished\<newline>''] \<and>
   launch os_ok 3 =
     [Printf ''Creating threads\<newline>'',
      Store 0 1, Create 0 0 0, Store 1 2, Create 1 0 0, Store 2 3, Create 2 0 0,
      Printf ''main(): threads created, waiting for finish...\<newline>'',
      Join 0, Join 1, Join 2,
      Printf ''All threads finished\<newline>'', Return (RInt 0)]"
proof -
  note p = launcher_progress_points [of os_ok 3]
  from p [THEN conjunct1]
  have "prints (launch os_ok 3) = [creating_line, waiting_line, all_finished_line]"
    by (simp add: first_failure_os_ok)
  moreover from p [THEN conjunct2, THEN mp, OF first_failure_os_ok]
  have "launch os_ok 3 =
        Printf creating_line # concat (map (spawn_ok os_ok) [0..<unat (3 :: u16)]) @
        Printf waiting_line # map (\<lambda>j. Join (of_nat j)) [0..<unat (3 :: u16)] @
        [Printf all_finished_line, Return (RInt 0)]" .
  moreover have "[creating_line, waiting_line, all_finished_line] =
     [''Creating threads\<newline>'', ''main(): threads created, waiting for finish...\<newline>'',
      ''All threads finished\<newline>'']"
    by (simp add: creating_line_def waiting_line_def all_finished_line_def)
  moreover have "Printf creating_line # concat (map (spawn_ok os_ok) [0..<unat (3 :: u16)]) @
        Printf waiting_line # map (\<lambda>j. Join (of_nat j)) [0..<unat (3 :: u16)] @
        [Printf all_finished_line, Return (RInt 0)] =
     [Printf ''Creating threads\<newline>'',
      Store 0 1, Create 0 0 0, Store 1 2, Create 1 0 0, Store 2 3, Create 2 0 0,
      Printf ''main(): threads created, waiting for finish...\<newline>'',
      Join 0, Join 1, Join 2,
      Printf ''All threads finished\<newline>'', Return (RInt 0)]"
    by code_simp
  ultimately show ?thesis
    using first_failure_os_ok by simp
qed




text \<open>
  C8. At any moment of any run, \<open>threads\<close> and \<open>thread_id\<close> both have \<open>num_threads\<close>
  elements (3 in \<open>main\<close>), there are at most that many workers, every worker has its handle
  and its identifier written at its own index, and no handle is written beyond the workers
  that exist.
\<close>

theorem arrays_sized_by_count:
  assumes "run os sched (init os N) = Some s"
  shows "length (threads s) = unat N \<and> length (thread_id s) = unat N \<and>
     length (pool s) \<le> unat N \<and>
     (\<forall>t<length (pool s). threads s ! t = Some t \<and> thread_id s ! t \<noteq> None) \<and>
     (\<forall>j<unat N. length (pool s) \<le> j \<longrightarrow> threads s ! j = None)"
proof -
  have "proc_inv os N s"
    using assms by (rule inv_reachable)
  then have "common N s"
    by (simp add: proc_inv_def)
  then show ?thesis
    by (simp add: common_def)
qed

theorem arrays_sized_by_count_witness:
  "run os_eagain sched_eagain (init os_eagain 3) = Some final_eagain \<and>
   length (threads final_eagain) = 3 \<and> length (thread_id final_eagain) = 3 \<and>
   length (pool final_eagain) = 1 \<and> threads final_eagain = [Some 0, None, None]"
proof -
  from arrays_sized_by_count [OF run_os_eagain] show ?thesis
    using run_os_eagain by (simp add: final_eagain_def)
qed

text \<open>
  C9. The loop of \<open>thread_func\<close> runs five times for every identifier, and \<open>thread_func\<close>
  makes twelve calls in all; the spawn loop and the join loop of \<open>main\<close> each run at most
  \<open>num_threads\<close> times; no run of the process has more than \<open>16 * num_threads + 4\<close> steps
  (52 for \<open>main\<close>); and as long as the process has not exited somebody can take a step, so
  \<open>main\<close> is never left waiting for a worker that cannot finish.
\<close>

theorem loops_terminate:
  "thread_loop v 0 = concat (replicate 5 [Printf (running_line v), Sleep 1]) \<and>
   length (thread_func v) = 12 \<and>
   length (filter is_store (launch os N)) \<le> unat N \<and>
   length (filter is_join (launch os N)) \<le> unat N \<and>
   (\<forall>sched s. run os sched (init os N) = Some s \<longrightarrow>
      length sched \<le> 16 * unat N + 4 \<and>
      (exit_code s = None \<longrightarrow> (\<exists>a s'. step os a s = Some s')))"
  using thread_loop_unfold [of v] length_thread_func [of v] launch_stores [of os N]
    launch_joins [of os N] run_bounded [of os _ N] progress [of os N] inv_reachable [of os _ N]
  by blast

theorem loops_terminate_witness:
  "run os_ok sched_ok (init os_ok 3) = Some final_ok \<and> length sched_ok = 52 \<and>
   length sched_ok \<le> 16 * unat (3 :: u16) + 4 \<and>
   length (filter is_store (launch os_ok 3)) \<le> unat (3 :: u16) \<and>
   exit_code ((init os_ok 3)\<lparr>main_k := spawn_loop os_ok 3 0, stdout := [creating_line]\<rparr>)
     = None \<and>
   (\<exists>a s'. step os_ok a
      ((init os_ok 3)\<lparr>main_k := spawn_loop os_ok 3 0, stdout := [creating_line]\<rparr>) = Some s')"
proof -
  note t = loops_terminate [of 1 os_ok 3]
  have "length sched_ok = 52"
    by code_simp
  moreover from t run_os_ok have "length sched_ok \<le> 16 * unat (3 :: u16) + 4"
    by blast
  moreover from t have "length (filter is_store (launch os_ok 3)) \<le> unat (3 :: u16)"
    by blast
  moreover have e: "exit_code
      ((init os_ok 3)\<lparr>main_k := spawn_loop os_ok 3 0, stdout := [creating_line]\<rparr>) = None"
    by (simp add: init_def)
  moreover from t run_first_step e
  have "\<exists>a s'. step os_ok a
      ((init os_ok 3)\<lparr>main_k := spawn_loop os_ok 3 0, stdout := [creating_line]\<rparr>) = Some s'"
    by blast
  ultimately show ?thesis
    using run_os_ok by blast
qed

text \<open>
  C10. When the first failing \<open>pthread_create\<close> of \<open>main\<close> is the one for index \<open>k\<close>
  (\<open>k < 3\<close>), the calls of \<open>main\<close> are: the \<open>printf\<close> of \<open>Creating threads\<close>, the \<open>k\<close>
  successful iterations of the spawn loop, the store and the failing \<open>pthread_create\<close> for
  index \<open>k\<close>, \<open>perror\<close>, \<open>return -1\<close>. The only calls that write to a stream are that
  \<open>printf\<close> and \<open>perror\<close>, and there is no \<open>pthread_join\<close>.
\<close>

theorem main_create_failure:
  assumes "first_failure os 3 = Some k"
  shows "k < 3 \<and> create_rc os k \<noteq> 0 \<and>
     main os =
       Printf creating_line # concat (map (spawn_ok os) [0..<k]) @
       [Store (of_nat k) (of_nat k + 1),
        Create (of_nat k) (create_rc os k) (create_errno os k),
        Perror create_error_msg, Return (RInt (- 1))] \<and>
     filter is_output (main os) = [Printf creating_line, Perror create_error_msg] \<and>
     filter is_join (main os) = []"
proof -
  from assms have k: "k < 3" "create_rc os k \<noteq> 0"
    by (simp_all add: first_failure_Some)
  note l = launch_fail [OF assms]
  from l have "filter is_output (main os) = [Printf creating_line, Perror create_error_msg]"
    by (simp add: main_def spawn_ok_outputs)
  moreover from l have "filter is_join (main os) = []"
    by (simp add: main_def spawn_ok_joins)
  ultimately show ?thesis
    using k l by (simp add: main_def)
qed

theorem main_create_failure_witness:
  "first_failure os_eagain 3 = Some 1 \<and>
   main os_eagain =
     [Printf ''Creating threads\<newline>'', Store 0 1, Create 0 0 11, Store 1 2, Create 1 11 11,
      Perror ''error creating thread\<newline>'', Return (RInt (- 1))] \<and>
   filter is_output (main os_eagain) =
     [Printf ''Creating threads\<newline>'', Perror ''error creating thread\<newline>'']"
proof -
  from main_create_failure [OF first_failure_os_eagain]
  have "main os_eagain =
       Printf creating_line # concat (map (spawn_ok os_eagain) [0..<1]) @
       [Store (of_nat 1) (of_nat 1 + 1),
        Create (of_nat 1) (create_rc os_eagain 1) (create_errno os_eagain 1),
        Perror create_error_msg, Return (RInt (- 1))]"
    and "filter is_output (main os_eagain) = [Printf creating_line, Perror create_error_msg]"
    by blast+
  moreover have "Printf creating_line # concat (map (spawn_ok os_eagain) [0..<1]) @
       [Store (of_nat 1) (of_nat 1 + 1),
        Create (of_nat 1) (create_rc os_eagain 1) (create_errno os_eagain 1),
        Perror create_error_msg, Return (RInt (- 1))] =
     [Printf ''Creating threads\<newline>'', Store 0 1, Create 0 0 11, Store 1 2, Create 1 11 11,
      Perror ''error creating thread\<newline>'', Return (RInt (- 1))]"
    by code_simp
  moreover have "[Printf creating_line, Perror create_error_msg] =
     [Printf ''Creating threads\<newline>'', Perror ''error creating thread\<newline>'']"
    by (simp add: creating_line_def create_error_msg_def)
  ultimately show ?thesis
    using first_failure_os_eagain by simp
qed

end
